theory Spec2Isabelle
  imports Main "HOL-Library.Sublist"
begin

section \<open>String references\<close>

text \<open>
  Modelled from the spec: the string view class \<open>StringRef\<close> (\<open>BLI_string_ref.hh\<close>) is
  not among the sources. The spec calls its searches primitives that "find the next (or
  previous) occurrence ... starting from an offset" and that return "a not-found sentinel when
  scanning hits the buffer end". The sentinel is \<open>-1\<close>: every caller in
  \<open>gpu_shader_dependency.cc\<close> tests the result with \<open>== -1\<close>. A text is a \<open>string\<close>, an offset
  an \<open>int\<close> (the source uses \<open>int64_t\<close>; texts are far shorter than \<open>2^63\<close>). A negative
  start offset behaves as an offset beyond every text.
\<close>

fun find_at :: "string \<Rightarrow> string \<Rightarrow> int \<Rightarrow> int" where
  "find_at kw [] i = (if kw = [] then i else - 1)"
| "find_at kw (x # xs) i = (if prefix kw (x # xs) then i else find_at kw xs (i + 1))"

definition StringRef_find :: "string \<Rightarrow> string \<Rightarrow> int \<Rightarrow> int" where
  "StringRef_find input kw pos =
     (if pos < 0 \<or> int (length input) < pos then - 1
      else find_at kw (drop (nat pos) input) pos)"

fun rfind_scan :: "string \<Rightarrow> string \<Rightarrow> int \<Rightarrow> int \<Rightarrow> int \<Rightarrow> int" where
  "rfind_scan kw [] i lim best = (if kw = [] \<and> i \<le> lim then i else best)"
| "rfind_scan kw (x # xs) i lim best =
     (if lim < i then best
      else rfind_scan kw xs (i + 1) lim (if prefix kw (x # xs) then i else best))"

definition StringRef_rfind :: "string \<Rightarrow> string \<Rightarrow> int \<Rightarrow> int" where
  "StringRef_rfind input kw pos =
     rfind_scan kw input 0 (if pos < 0 then int (length input) else pos) (- 1)"

definition StringRef_substr :: "string \<Rightarrow> int \<Rightarrow> int \<Rightarrow> string" where
  "StringRef_substr input start n =
     take (nat (min n (int (length input) - start))) (drop (nat start) input)"

definition StringRef_substr_from :: "string \<Rightarrow> int \<Rightarrow> string" where
  "StringRef_substr_from input start = drop (nat start) input"

fun first_where :: "(char \<Rightarrow> bool) \<Rightarrow> string \<Rightarrow> int \<Rightarrow> int" where
  "first_where P [] i = - 1"
| "first_where P (x # xs) i = (if P x then i else first_where P xs (i + 1))"

definition find_first_of :: "string \<Rightarrow> string \<Rightarrow> int \<Rightarrow> int" where
  "find_first_of input chars pos =
     (if pos < 0 then - 1 else first_where (\<lambda>c. c \<in> set chars) (drop (nat pos) input) pos)"

definition find_first_not_of :: "string \<Rightarrow> string \<Rightarrow> int \<Rightarrow> int" where
  "find_first_not_of input chars pos =
     (if pos < 0 then - 1 else first_where (\<lambda>c. c \<notin> set chars) (drop (nat pos) input) pos)"

fun last_where :: "(char \<Rightarrow> bool) \<Rightarrow> string \<Rightarrow> int \<Rightarrow> int \<Rightarrow> int \<Rightarrow> int" where
  "last_where P [] i lim best = best"
| "last_where P (x # xs) i lim best =
     (if lim < i then best else last_where P xs (i + 1) lim (if P x then i else best))"

definition find_last_not_of :: "string \<Rightarrow> string \<Rightarrow> int \<Rightarrow> int" where
  "find_last_not_of input chars pos =
     last_where (\<lambda>c. c \<notin> set chars) input 0
       (if pos < 0 then int (length input) else pos) (- 1)"

definition endswith :: "string \<Rightarrow> string \<Rightarrow> bool" where
  "endswith s suf = suffix suf s"

definition startswith :: "string \<Rightarrow> string \<Rightarrow> bool" where
  "startswith s pre = prefix pre s"

definition newline :: char where
  "newline = CHR 0x0A"

definition tab :: char where
  "tab = CHR 0x09"

definition quote :: string where
  "quote = [CHR 0x27]"

definition whitespace_chars :: string where
  "whitespace_chars = [CHR '' '', newline, tab]"

section \<open>Diagnostics\<close>

text \<open>
  \<open>print_error\<close> writes to the standard output. The model appends what its first output
  line holds (path, line number, column, message) to a log that is passed along.
\<close>

record diag =
  diag_path :: string
  diag_line :: int
  diag_column :: int
  diag_message :: string

definition print_error :: "string \<Rightarrow> string \<Rightarrow> int \<Rightarrow> string \<Rightarrow> diag list \<Rightarrow> diag list" where
  "print_error fullpath input offset message out =
     (let sub = StringRef_substr input 0 offset;
          line_number = int (length (filter (\<lambda>c. c = newline) sub)) + 1;
          line_start = StringRef_rfind input [newline] offset + 1;
          char_number = offset - line_start + 1
      in out @ [\<lparr>diag_path = fullpath, diag_line = line_number,
                  diag_column = char_number, diag_message = message\<rparr>])"

section \<open>The lexical scanner\<close>

definition is_in_comment :: "string \<Rightarrow> int \<Rightarrow> bool" where
  "is_in_comment input offset =
     (StringRef_rfind input ''/*'' offset > StringRef_rfind input ''*/'' offset \<or>
      StringRef_rfind input ''//'' offset > StringRef_rfind input [newline] offset)"

definition boundary_chars :: string where
  "boundary_chars = [newline, tab, CHR '' '', CHR '':'', CHR ''('', CHR '','']"

lemma find_at_bounds:
  "find_at kw xs i = - 1 \<or> (i \<le> find_at kw xs i \<and> find_at kw xs i \<le> i + int (length xs))"
  by (induction xs arbitrary: i) (auto, force+)

lemma StringRef_find_bounds:
  "StringRef_find input kw pos = - 1 \<or>
   (pos \<le> StringRef_find input kw pos \<and> StringRef_find input kw pos \<le> int (length input))"
  using find_at_bounds [of kw "drop (nat pos) input" pos]
  by (auto simp: StringRef_find_def)

lemma rfind_scan_bounds:
  "best \<le> lim \<Longrightarrow> - 1 \<le> best \<Longrightarrow> 0 \<le> i \<Longrightarrow>
   - 1 \<le> rfind_scan kw xs i lim best \<and> rfind_scan kw xs i lim best \<le> lim"
  by (induction xs arbitrary: i best) auto

lemma rfind_scan_upper:
  "best \<le> i + int (length xs) \<Longrightarrow> rfind_scan kw xs i lim best \<le> i + int (length xs)"
proof (induction xs arbitrary: i best)
  case Nil
  then show ?case by simp
next
  case (Cons x xs)
  have "rfind_scan kw xs (i + 1) lim (if prefix kw (x # xs) then i else best)
          \<le> (i + 1) + int (length xs)"
    using Cons.prems by (intro Cons.IH) simp
  then show ?case using Cons.prems by simp
qed

lemma StringRef_rfind_bounds:
  "- 1 \<le> StringRef_rfind input kw pos \<and>
   (0 \<le> pos \<longrightarrow> StringRef_rfind input kw pos \<le> pos) \<and>
   StringRef_rfind input kw pos \<le> int (length input)"
proof -
  have a: "- 1 \<le> StringRef_rfind input kw pos"
    unfolding StringRef_rfind_def
    using rfind_scan_bounds [of "- 1" "if pos < 0 then int (length input) else pos" 0 kw input]
    by (cases "pos < 0") auto
  have b: "0 \<le> pos \<Longrightarrow> StringRef_rfind input kw pos \<le> pos"
    unfolding StringRef_rfind_def
    using rfind_scan_bounds [of "- 1" pos 0 kw input] by auto
  have "StringRef_rfind input kw pos \<le> int (length input)"
    unfolding StringRef_rfind_def
    using rfind_scan_upper [of "- 1" 0 input kw] by simp
  with a b show ?thesis by blast
qed

text \<open>
  \<open>find_str\<close> is a template over two flags: \<open>check_whole_word\<close> and \<open>reversed\<close>. The four
  instances carry the source's macro names below.
\<close>

function find_str :: "bool \<Rightarrow> bool \<Rightarrow> string \<Rightarrow> string \<Rightarrow> int \<Rightarrow> int" where
  "find_str check_whole_word reversed input keyword offset =
     (let offset1 = (if reversed then StringRef_rfind input keyword offset
                     else StringRef_find input keyword offset)
      in if offset1 > 0 then
           if check_whole_word \<and> input ! nat (offset1 - 1) \<notin> set boundary_chars
           then find_str check_whole_word reversed input keyword
                  (offset1 + (if reversed then - 1 else 1))
           else if is_in_comment input offset1
           then find_str check_whole_word reversed input keyword
                  (offset1 + (if reversed then - 1 else 1))
           else offset1
         else offset1)"
  by pat_completeness auto
termination
proof (relation "measure (\<lambda>(w, r, input, kw, offset).
          if r then (if offset < 0 then length input + 2 else nat offset + 1)
          else nat (int (length input) + 1 - offset))", goal_cases)
  case 1
  show ?case by simp
next
  case (2 w r input kw offset offset1)
  then show ?case
    using StringRef_find_bounds [of input kw offset] StringRef_rfind_bounds [of input kw offset]
    by (auto split: if_splits)
next
  case (3 w r input kw offset offset1)
  then show ?case
    using StringRef_find_bounds [of input kw offset] StringRef_rfind_bounds [of input kw offset]
    by (auto split: if_splits)
qed

declare find_str.simps [simp del]

definition find_keyword :: "string \<Rightarrow> string \<Rightarrow> int \<Rightarrow> int" where
  "find_keyword = find_str True False"

definition rfind_keyword :: "string \<Rightarrow> string \<Rightarrow> int \<Rightarrow> int" where
  "rfind_keyword = find_str True True"

definition find_token :: "string \<Rightarrow> string \<Rightarrow> int \<Rightarrow> int" where
  "find_token = find_str False False"

definition rfind_token :: "string \<Rightarrow> string \<Rightarrow> int \<Rightarrow> int" where
  "rfind_token = find_str False True"

section \<open>Fragments\<close>

text \<open>
  Modelled from the spec: the enumeration \<open>shader::BuiltinBits\<close> is declared in
  \<open>gpu_shader_create_info.hh\<close>, which is not among the sources. The spec gives it "one flag
  bit per keyword", so a value of the bitset is the set of the flags whose bit is set:
  \<open>NONE\<close> is the empty set and \<open>|=\<close> is union.
\<close>

datatype BuiltinBit =
    FRAG_COORD | FRONT_FACING | GLOBAL_INVOCATION_ID | INSTANCE_ID | LOCAL_INVOCATION_ID
  | LOCAL_INVOCATION_INDEX | NUM_WORK_GROUP | POINT_COORD | POINT_SIZE | PRIMITIVE_ID
  | VERTEX_ID | WORK_GROUP_ID | WORK_GROUP_SIZE

type_synonym BuiltinBits = "BuiltinBit set"

text \<open>
  A \<open>GPUSource *\<close> is modelled by the file name of the fragment it points to: the registry
  holds one object per file name (\<open>add_new\<close>) and objects never move.
\<close>

record GPUSource =
  fullpath :: string
  filename :: string
  source :: string
  dependencies :: "string list"
  dependencies_init :: bool
  builtins :: BuiltinBits
  processed_source :: string

text \<open>
  The table of the builtin scan, in the order of the constructor's \<open>if\<close> statements.
\<close>

definition builtin_keywords :: "(string \<times> BuiltinBit) list" where
  "builtin_keywords =
     [(''gl_FragCoord'', FRAG_COORD),
      (''gl_FrontFacing'', FRONT_FACING),
      (''gl_GlobalInvocationID'', GLOBAL_INVOCATION_ID),
      (''gl_InstanceID'', INSTANCE_ID),
      (''gl_LocalInvocationID'', LOCAL_INVOCATION_ID),
      (''gl_LocalInvocationIndex'', LOCAL_INVOCATION_INDEX),
      (''gl_NumWorkGroup'', NUM_WORK_GROUP),
      (''gl_PointCoord'', POINT_COORD),
      (''gl_PointSize'', POINT_SIZE),
      (''gl_PrimitiveID'', PRIMITIVE_ID),
      (''gl_VertexID'', VERTEX_ID),
      (''gl_WorkGroupID'', WORK_GROUP_ID),
      (''gl_WorkGroupSize'', WORK_GROUP_SIZE)]"

text \<open>
  Each statement is \<open>if (source.find(keyword, 0)) { builtins |= flag; }\<close>: the condition is
  the \<open>int64_t\<close> offset converted to \<open>bool\<close>, that is, compared with zero.
\<close>

definition scan_builtin :: "string \<Rightarrow> BuiltinBits \<Rightarrow> string \<times> BuiltinBit \<Rightarrow> BuiltinBits" where
  "scan_builtin src b kf =
     (if StringRef_find src (fst kf) 0 \<noteq> 0 then b \<union> {snd kf} else b)"

definition scan_builtins :: "string \<Rightarrow> BuiltinBits" where
  "scan_builtins src = foldl (scan_builtin src) {} builtin_keywords"

section \<open>Enum rewriting\<close>

lemma find_str_forward_bounds:
  "find_str w False input kw offset = - 1 \<or>
   (offset \<le> find_str w False input kw offset \<and>
    find_str w False input kw offset \<le> int (length input))"
proof (induction w "False" input kw offset rule: find_str.induct)
  case (1 w input kw offset)
  let ?o = "StringRef_find input kw offset"
  have b: "?o = - 1 \<or> (offset \<le> ?o \<and> ?o \<le> int (length input))"
    by (rule StringRef_find_bounds)
  show ?case
    using b "1.hyps"
    by (subst (1 2 3) find_str.simps) (auto simp: Let_def split: if_splits)
qed

lemma find_keyword_next:
  "find_keyword input kw (c + 1) \<noteq> - 1 \<Longrightarrow>
   c < find_keyword input kw (c + 1) \<and> find_keyword input kw (c + 1) \<le> int (length input)"
  using find_str_forward_bounds [of True input kw "c + 1"] by (auto simp: find_keyword_def)

lemma find_token_next:
  "find_token input kw c \<noteq> - 1 \<Longrightarrow>
   c \<le> find_token input kw c \<and> find_token input kw c \<le> int (length input)"
  using find_str_forward_bounds [of False input kw c] by (auto simp: find_token_def)

text \<open>
  \<open>input\<close> is a null-terminated \<open>StringRefNull\<close>: reading at the index equal to its size
  gives the terminator.
\<close>

definition char_at :: "string \<Rightarrow> int \<Rightarrow> char" where
  "char_at input i = (if 0 \<le> i \<and> i < int (length input) then input ! nat i else CHR 0x00)"

text \<open>
  The loop of \<open>enum_preprocess\<close>. Its variables are \<open>cursor\<close>, \<open>last_pos\<close>, \<open>output\<close> and
  the log; the \<open>CHECK\<close> macro reports and continues with the next iteration, keeping what
  was appended to \<open>output\<close> so far. The result is the state at the \<open>break\<close>.
\<close>

function enum_loop ::
  "string \<Rightarrow> bool \<Rightarrow> string \<Rightarrow> int \<Rightarrow> int \<Rightarrow> string \<Rightarrow> diag list \<Rightarrow> int \<times> string \<times> diag list"
where
  "enum_loop path is_cpp input cursor last_pos output out =
    (let cursor = find_keyword input ''enum '' (cursor + 1) in
     if cursor = - 1 then (last_pos, output, out)
     else if cursor \<ge> 8 \<and> StringRef_substr input (cursor - 8) 8 = ''typedef ''
     then enum_loop path is_cpp input cursor last_pos output out
     else
      let output = output @ StringRef_substr input last_pos (cursor - last_pos);
          name_start = StringRef_find input '' '' cursor;
          values_start = find_token input ''{'' cursor
      in
      if values_start = - 1
      then enum_loop path is_cpp input cursor last_pos output
             (print_error path input cursor
                (''Malformed enum class. Expected '' @ quote @ ''{'' @ quote @ '' after typename.'') out)
      else
       let enum_name = StringRef_substr input name_start (values_start - name_start);
           name_end = find_token enum_name '':'' 0;
           underlying_type = find_keyword enum_name ''uint32_t'' name_end
       in
       if is_cpp \<and> name_end = - 1
       then enum_loop path is_cpp input cursor last_pos output
              (print_error path input name_start
                 (''Expected '' @ quote @ '':'' @ quote @ '' after C++ enum name.'') out)
       else if is_cpp \<and> underlying_type = - 1
       then enum_loop path is_cpp input cursor last_pos output
              (print_error path input name_start ''C++ enums needs uint32_t underlying type.'' out)
       else
        let enum_name = (if is_cpp then StringRef_substr input name_start name_end else enum_name);
            output = output @ ''#define '' @ enum_name @ '' uint'' @ [newline];
            values_end = find_token input ''}'' values_start
        in
        if values_end = - 1
        then enum_loop path is_cpp input cursor last_pos output
               (print_error path input cursor
                  (''Malformed enum class. Expected '' @ quote @ ''}'' @ quote @ '' after values.'') out)
        else
         let values_start = values_start + 1;
             enum_values = StringRef_substr input values_start (values_end - values_start);
             token = find_token enum_values ''{'' 0
         in
         if token \<noteq> - 1
         then enum_loop path is_cpp input cursor last_pos output
                (print_error path input (values_start + token)
                   (''Unexpected '' @ quote @ ''{'' @ quote @ '' token inside enum values.'') out)
         else
          let last_equal = rfind_token enum_values ''='' values_end;
              last_comma = rfind_token enum_values '','' values_end;
              enum_values = (if last_comma > last_equal
                             then StringRef_substr input values_start last_comma
                             else enum_values);
              output = output @ ''const uint '' @ enum_values
          in
          if char_at input (values_end + 1) \<noteq> CHR '';''
          then enum_loop path is_cpp input cursor last_pos output
                 (print_error path input (values_end + 1)
                    (''Expected '' @ quote @ '';'' @ quote @ '' after enum type declaration.'') out)
          else enum_loop path is_cpp input (values_end + 1) (values_end + 1) output out)"
  by pat_completeness auto
termination
  apply (relation "measure (\<lambda>(path, is_cpp, input, cursor, rest).
          nat (int (length input) + 2 - cursor))")
  apply simp
  subgoal for path is_cpp input cursor
    using find_keyword_next [of input "''enum ''" cursor]
          find_token_next [of input "''{''" "find_keyword input ''enum '' (cursor + 1)"]
          find_token_next [of input "''}''" "find_token input ''{'' (find_keyword input ''enum '' (cursor + 1))"]
    by simp
  subgoal for path is_cpp input cursor
    using find_keyword_next [of input "''enum ''" cursor]
          find_token_next [of input "''{''" "find_keyword input ''enum '' (cursor + 1)"]
          find_token_next [of input "''}''" "find_token input ''{'' (find_keyword input ''enum '' (cursor + 1))"]
    by simp
  subgoal for path is_cpp input cursor
    using find_keyword_next [of input "''enum ''" cursor]
          find_token_next [of input "''{''" "find_keyword input ''enum '' (cursor + 1)"]
          find_token_next [of input "''}''" "find_token input ''{'' (find_keyword input ''enum '' (cursor + 1))"]
    by simp
  subgoal for path is_cpp input cursor
    using find_keyword_next [of input "''enum ''" cursor]
          find_token_next [of input "''{''" "find_keyword input ''enum '' (cursor + 1)"]
          find_token_next [of input "''}''" "find_token input ''{'' (find_keyword input ''enum '' (cursor + 1))"]
    by simp
  subgoal for path is_cpp input cursor
    using find_keyword_next [of input "''enum ''" cursor]
          find_token_next [of input "''{''" "find_keyword input ''enum '' (cursor + 1)"]
          find_token_next [of input "''}''" "find_token input ''{'' (find_keyword input ''enum '' (cursor + 1))"]
    by simp
  subgoal for path is_cpp input cursor
    using find_keyword_next [of input "''enum ''" cursor]
          find_token_next [of input "''{''" "find_keyword input ''enum '' (cursor + 1)"]
          find_token_next [of input "''}''" "find_token input ''{'' (find_keyword input ''enum '' (cursor + 1))"]
    by simp
  subgoal for path is_cpp input cursor
    using find_keyword_next [of input "''enum ''" cursor]
          find_token_next [of input "''{''" "find_keyword input ''enum '' (cursor + 1)"]
          find_token_next [of input "''}''" "find_token input ''{'' (find_keyword input ''enum '' (cursor + 1))"]
    by simp
  subgoal for path is_cpp input cursor
    using find_keyword_next [of input "''enum ''" cursor]
          find_token_next [of input "''{''" "find_keyword input ''enum '' (cursor + 1)"]
          find_token_next [of input "''}''" "find_token input ''{'' (find_keyword input ''enum '' (cursor + 1))"]
    by simp
  done

declare enum_loop.simps [simp del]

definition enum_preprocess :: "GPUSource \<Rightarrow> diag list \<Rightarrow> GPUSource \<times> diag list" where
  "enum_preprocess this out =
     (let input = source this;
          is_cpp = endswith (filename this) ''.hh'';
          (last_pos, output, out) = enum_loop (fullpath this) is_cpp input (- 1) 0 [] out
      in if last_pos = 0 then (this, out)
         else
           let output = output @ StringRef_substr_from input last_pos
           in (this\<lparr>processed_source := output, source := output\<rparr>, out))"

section \<open>Function signatures\<close>

text \<open>
  Modelled from the spec: \<open>GPUFunction\<close>, \<open>GPUFunctionQual\<close> and \<open>eGPUType\<close> are declared in
  \<open>gpu_material_library.h\<close>, which is not among the sources. A signature holds a name, a
  back-reference to the owning fragment, and parameters as \<open>(qualifier, type)\<close> pairs kept
  in two arrays of one fixed capacity with a counter \<open>totparam\<close>. The capacity
  (\<open>ARRAY_SIZE(func->paramtype)\<close>) is a parameter of the model; the model keeps the whole
  name (the source copies it into a fixed buffer of the same header).
\<close>

datatype GPUFunctionQual = FUNCTION_QUAL_IN | FUNCTION_QUAL_OUT | FUNCTION_QUAL_INOUT

datatype eGPUType =
    GPU_NONE | GPU_FLOAT | GPU_VEC2 | GPU_VEC3 | GPU_VEC4 | GPU_MAT3 | GPU_MAT4
  | GPU_TEX1D_ARRAY | GPU_TEX2D_ARRAY | GPU_TEX2D | GPU_TEX3D | GPU_CLOSURE

record GPUFunction =
  fn_name :: string
  fn_source :: string
  totparam :: int
  paramqual :: "GPUFunctionQual list"
  paramtype :: "eGPUType list"

type_synonym GPUSourceDictionnary = "string \<rightharpoonup> GPUSource"
type_synonym GPUFunctionDictionnary = "string \<rightharpoonup> GPUFunction"

definition new_GPUFunction :: "nat \<Rightarrow> string \<Rightarrow> string \<Rightarrow> GPUFunction" where
  "new_GPUFunction capacity nm src =
     \<lparr>fn_name = nm, fn_source = src, totparam = 0,
      paramqual = replicate capacity FUNCTION_QUAL_IN,
      paramtype = replicate capacity GPU_NONE\<rparr>"

text \<open>A write to a C array: outside the array it is a memory error, here \<open>None\<close>.\<close>

definition array_set :: "'a list \<Rightarrow> int \<Rightarrow> 'a \<Rightarrow> 'a list option" where
  "array_set xs i v = (if 0 \<le> i \<and> i < int (length xs) then Some (xs[nat i := v]) else None)"

definition parse_qualifier :: "string \<Rightarrow> GPUFunctionQual" where
  "parse_qualifier qualifier =
     (if qualifier = ''out'' then FUNCTION_QUAL_OUT
      else if qualifier = ''inout'' then FUNCTION_QUAL_INOUT
      else FUNCTION_QUAL_IN)"

definition parse_type :: "string \<Rightarrow> eGPUType" where
  "parse_type ty =
     (if ty = ''float'' then GPU_FLOAT
      else if ty = ''vec2'' then GPU_VEC2
      else if ty = ''vec3'' then GPU_VEC3
      else if ty = ''vec4'' then GPU_VEC4
      else if ty = ''mat3'' then GPU_MAT3
      else if ty = ''mat4'' then GPU_MAT4
      else if ty = ''sampler1DArray'' then GPU_TEX1D_ARRAY
      else if ty = ''sampler2DArray'' then GPU_TEX2D_ARRAY
      else if ty = ''sampler2D'' then GPU_TEX2D
      else if ty = ''sampler3D'' then GPU_TEX3D
      else if ty = ''Closure'' then GPU_CLOSURE
      else GPU_NONE)"

text \<open>
  The three lambdas of \<open>material_functions_parse\<close>. A reference parameter that the lambda
  updates (\<open>cursor\<close>) is returned with the result; \<open>false\<close> is \<open>None\<close>. The debug
  assertion on prototypes in \<open>function_parse\<close> changes no value and is left out.
\<close>

definition function_parse :: "string \<Rightarrow> int \<Rightarrow> (int \<times> string \<times> string \<times> string) option" where
  "function_parse input cursor =
     (let cursor = find_keyword input ''void '' (cursor + 1) in
      if cursor = - 1 then None
      else
       let arg_start = find_token input ''('' cursor in
       if arg_start = - 1 then None
       else
        let arg_end = find_token input '')'' arg_start in
        if arg_end = - 1 then None
        else
         let name_start = find_first_not_of input whitespace_chars (StringRef_find input '' '' cursor) in
         if name_start = - 1 then None
         else
          let name_end = find_last_not_of input whitespace_chars arg_start in
          if name_end = - 1 then None
          else Some (cursor, ''void'',
                     StringRef_substr input name_start (name_end - name_start),
                     StringRef_substr input (arg_start + 1) (arg_end - (arg_start + 1))))"

definition keyword_parse :: "string \<Rightarrow> int \<Rightarrow> string \<times> int" where
  "keyword_parse str cursor =
     (let keyword_start = find_first_not_of str whitespace_chars cursor in
      if keyword_start = - 1 then (StringRef_substr str 0 0, cursor)
      else
       let keyword_end = find_first_of str whitespace_chars keyword_start;
           keyword_end = (if keyword_end = - 1 then int (length str) else keyword_end)
       in (StringRef_substr str keyword_start (keyword_end - keyword_start), keyword_end + 1))"

definition arg_parse :: "string \<Rightarrow> int \<Rightarrow> (int \<times> string \<times> string \<times> string) option" where
  "arg_parse str cursor =
     (let arg_start = cursor + 1 in
      if arg_start \<ge> int (length str) then None
      else
       let cursor = find_token str '','' arg_start;
           cursor = (if cursor = - 1 then int (length str) else cursor);
           arg = StringRef_substr str arg_start (cursor - arg_start);
           (out_qualifier, keyword_cursor) = keyword_parse arg 0;
           (out_type, keyword_cursor) = keyword_parse arg keyword_cursor;
           (out_name, keyword_cursor) = keyword_parse arg keyword_cursor
       in if out_name = []
          then Some (cursor, StringRef_substr arg 0 0, out_qualifier, out_type)
          else Some (cursor, out_qualifier, out_type, out_name))"

lemma arg_parse_next:
  "arg_parse str cursor = Some (c, r) \<Longrightarrow> cursor < c \<and> c \<le> int (length str)"
  using find_token_next [of str "'',''" "cursor + 1"]
  by (auto simp: arg_parse_def Let_def split: if_splits prod.splits)

lemma function_parse_next:
  "function_parse input cursor = Some (c, r) \<Longrightarrow> cursor < c \<and> c \<le> int (length input)"
  using find_keyword_next [of input "''void ''" cursor]
  by (auto simp: function_parse_def Let_def split: if_splits)

text \<open>
  The inner loop over the parameters of one declaration. \<open>this\<close> is the fragment being
  constructed; the result is \<open>None\<close> when a write leaves an array.
\<close>

function args_loop ::
  "GPUSource \<Rightarrow> string \<Rightarrow> string \<Rightarrow> int \<Rightarrow> GPUFunction \<Rightarrow> diag list
   \<Rightarrow> (GPUFunction \<times> diag list) option"
where
  "args_loop this func_name func_args args_cursor func out =
    (case arg_parse func_args args_cursor of
       None \<Rightarrow> Some (func, out)
     | Some (args_cursor, arg_qualifier, arg_type, arg_name) \<Rightarrow>
        if totparam func \<ge> int (length (paramtype func))
        then Some (func, print_error (fullpath this) (source this)
                           (StringRef_find (source this) func_name 0)
                           ''Too much parameter in function'' out)
        else
         (case array_set (paramqual func) (totparam func) (parse_qualifier arg_qualifier) of
            None \<Rightarrow> None
          | Some pq \<Rightarrow>
             (case array_set (paramtype func) (totparam func) (parse_type arg_type) of
                None \<Rightarrow> None
              | Some pt \<Rightarrow>
                 let out =
                      (if parse_type arg_type = GPU_NONE
                       then
                         let err = ''Unknown parameter type '' @ [CHR 0x22] @ arg_type @ [CHR 0x22];
                             err_ofs = StringRef_find (source this) func_name 0;
                             err_ofs = find_keyword (source this) arg_name err_ofs;
                             err_ofs = rfind_keyword (source this) arg_type err_ofs
                         in print_error (fullpath this) (source this) err_ofs err out
                       else out);
                     func = func\<lparr>paramqual := pq, paramtype := pt, totparam := totparam func + 1\<rparr>
                 in args_loop this func_name func_args args_cursor func out)))"
  by pat_completeness auto
termination
  apply (relation "measure (\<lambda>(this, func_name, func_args, args_cursor, rest).
           nat (int (length func_args) + 1 - args_cursor))")
   apply simp
  subgoal for this func_name func_args args_cursor func out x2 c
    using arg_parse_next [of func_args args_cursor c] by (cases x2) auto
  done

declare args_loop.simps [simp del]

text \<open>
  The outer loop of \<open>material_functions_parse\<close>. \<open>g_functions->add\<close> inserts only when the
  key is new. \<open>other_source\<close> is read through the registry of the fragments constructed
  before this one.
\<close>

definition source_of :: "GPUSourceDictionnary \<Rightarrow> string \<Rightarrow> string" where
  "source_of g_sources ptr = (case g_sources ptr of Some other \<Rightarrow> source other | None \<Rightarrow> [])"

function functions_loop ::
  "nat \<Rightarrow> GPUSourceDictionnary \<Rightarrow> GPUSource \<Rightarrow> int \<Rightarrow> GPUFunctionDictionnary \<Rightarrow> diag list
   \<Rightarrow> (GPUFunctionDictionnary \<times> diag list) option"
where
  "functions_loop capacity g_sources this cursor g_functions out =
    (case function_parse (source this) cursor of
       None \<Rightarrow> Some (g_functions, out)
     | Some (cursor, func_return_type, func_name, func_args) \<Rightarrow>
        let func = new_GPUFunction capacity func_name (filename this) in
        (case g_functions func_name of
           Some other \<Rightarrow>
            if fn_source other \<noteq> filename this
            then
              let out = print_error (fullpath this) (source this)
                          (StringRef_find (source this) func_name 0)
                          ''Function redefinition or overload in two different files ...'' out;
                  out = print_error (fullpath this) (source this)
                          (StringRef_find (source_of g_sources (fn_source other)) func_name 0)
                          ''... previous definition was here'' out
              in functions_loop capacity g_sources this cursor g_functions out
            else functions_loop capacity g_sources this cursor g_functions out
         | None \<Rightarrow>
            let g_functions = g_functions(func_name \<mapsto> func) in
            if func_return_type \<noteq> ''void''
            then functions_loop capacity g_sources this cursor g_functions out
            else
             (case args_loop this func_name func_args (- 1) (func\<lparr>totparam := 0\<rparr>) out of
                None \<Rightarrow> None
              | Some (func, out) \<Rightarrow>
                 functions_loop capacity g_sources this cursor
                   (g_functions(func_name \<mapsto> func)) out)))"
  by pat_completeness auto
termination
  apply (relation "measure (\<lambda>(capacity, g_sources, this, cursor, rest).
           nat (int (length (source this)) + 1 - cursor))")
      apply simp
  subgoal for capacity g_sources this cursor g_functions out x2 c
    using function_parse_next [of "source this" cursor c] by (cases x2) auto
  subgoal for capacity g_sources this cursor g_functions out x2 c
    using function_parse_next [of "source this" cursor c] by (cases x2) auto
  subgoal for capacity g_sources this cursor g_functions out x2 c
    using function_parse_next [of "source this" cursor c] by (cases x2) auto
  subgoal for capacity g_sources this cursor g_functions out x2 c
    using function_parse_next [of "source this" cursor c] by (cases x2) auto
  done

declare functions_loop.simps [simp del]

definition material_functions_parse ::
  "nat \<Rightarrow> GPUSourceDictionnary \<Rightarrow> GPUSource \<Rightarrow> GPUFunctionDictionnary \<Rightarrow> diag list
   \<Rightarrow> (GPUFunctionDictionnary \<times> diag list) option"
where
  "material_functions_parse capacity g_sources this g_functions out =
     functions_loop capacity g_sources this (- 1) g_functions out"

definition is_from_material_library :: "GPUSource \<Rightarrow> bool" where
  "is_from_material_library this =
     (startswith (filename this) ''gpu_shader_material_'' \<and> endswith (filename this) ''.glsl'')"

section \<open>Construction of a fragment\<close>

text \<open>
  The constructor \<open>GPUSource::GPUSource(path, file, datatoc, g_functions)\<close>: the builtin
  scan, then enum rewriting for shared headers, then signature extraction for material
  libraries.
\<close>

definition GPUSource_new ::
  "nat \<Rightarrow> GPUSourceDictionnary \<Rightarrow> string \<Rightarrow> string \<Rightarrow> string \<Rightarrow> GPUFunctionDictionnary \<Rightarrow> diag list
   \<Rightarrow> (GPUSource \<times> GPUFunctionDictionnary \<times> diag list) option"
where
  "GPUSource_new capacity g_sources path file datatoc g_functions out =
     (let this = \<lparr>fullpath = path, filename = file, source = datatoc, dependencies = [],
                  dependencies_init = False, builtins = scan_builtins datatoc,
                  processed_source = []\<rparr>;
          (this, out) = (if endswith file ''.h'' \<or> endswith file ''.hh''
                         then enum_preprocess this out else (this, out))
      in if is_from_material_library this
         then (case material_functions_parse capacity g_sources this g_functions out of
                 None \<Rightarrow> None
               | Some (g_functions, out) \<Rightarrow> Some (this, g_functions, out))
         else Some (this, g_functions, out))"

section \<open>Dependency resolution\<close>

text \<open>\<open>Vector::append_non_duplicates\<close>.\<close>

definition append_non_duplicates :: "'a list \<Rightarrow> 'a \<Rightarrow> 'a list" where
  "append_non_duplicates xs x = (if x \<in> set xs then xs else xs @ [x])"

text \<open>
  The tail of one iteration of the loop of \<open>init_dependencies\<close>: every entry of the
  dependency's list, then the dependency itself, is appended to the list of \<open>this\<close>. Both
  pointers are dereferenced through the registry; \<open>None\<close> stands for a dangling pointer.
\<close>

definition append_dependencies ::
  "GPUSourceDictionnary \<Rightarrow> string \<Rightarrow> string \<Rightarrow> GPUSourceDictionnary option" where
  "append_dependencies dict this dependency_source =
     (case dict this of
        None \<Rightarrow> None
      | Some t \<Rightarrow>
         (case dict dependency_source of
            None \<Rightarrow> None
          | Some d \<Rightarrow>
             Some (dict(this \<mapsto> t\<lparr>dependencies :=
                     append_non_duplicates
                       (foldl append_non_duplicates (dependencies t) (dependencies d))
                       dependency_source\<rparr>))))"

type_synonym resolve_result = "int \<times> GPUSourceDictionnary \<times> diag list"

text \<open>
  The \<open>while (true)\<close> loop of \<open>init_dependencies\<close>. \<open>recurse\<close> is the recursive call
  \<open>dependency_source->init_dependencies(dict, g_functions)\<close>; \<open>path\<close> and \<open>src\<close> are the
  members \<open>fullpath\<close> and \<open>source\<close> of \<open>this\<close>, which resolution never writes. The result
  holds the returned \<open>int\<close>, the registry and the log; \<open>None\<close> means that the recursive
  call did not return.
\<close>

function init_dependencies_loop ::
  "(GPUSourceDictionnary \<Rightarrow> diag list \<Rightarrow> string \<Rightarrow> resolve_result option)
   \<Rightarrow> GPUSourceDictionnary \<Rightarrow> diag list \<Rightarrow> string \<Rightarrow> string \<Rightarrow> string \<Rightarrow> int
   \<Rightarrow> resolve_result option"
where
  "init_dependencies_loop recurse dict out this path src pos =
    (let pos = StringRef_find src ''pragma BLENDER_REQUIRE('' (pos + 1) in
     if pos = - 1 then Some (0, dict, out)
     else
      let start = StringRef_find src ''('' pos + 1;
          end_ofs = StringRef_find src '')'' pos
      in
      if end_ofs = - 1
      then Some (1, dict,
                 print_error path src start
                   (''Malformed BLENDER_REQUIRE: Missing '' @ [CHR 0x22] @ '')'' @ [CHR 0x22] @ '' token'')
                   out)
      else
       let dependency_name = StringRef_substr src start (end_ofs - start) in
       (case dict dependency_name of
          None \<Rightarrow> Some (1, dict, print_error path src start ''Dependency not found'' out)
        | Some dependency_source \<Rightarrow>
           (case recurse dict out dependency_name of
              None \<Rightarrow> None
            | Some (result, dict, out) \<Rightarrow>
               if result \<noteq> 0 then Some (1, dict, out)
               else
                (case append_dependencies dict this dependency_name of
                   None \<Rightarrow> None
                 | Some dict \<Rightarrow> init_dependencies_loop recurse dict out this path src pos))))"
  by pat_completeness auto
termination
  apply (relation "measure (\<lambda>(recurse, dict, out, this, path, src, pos).
           nat (int (length src) + 1 - pos))")
   apply simp
  subgoal for recurse dict out this path src pos
    using StringRef_find_bounds [of src "''pragma BLENDER_REQUIRE(''" "pos + 1"] by auto
  done

declare init_dependencies_loop.simps [simp del]

text \<open>
  \<open>init_dependencies\<close>. The first argument bounds the depth of the recursion: a call on a
  fragment that is not yet marked needs one more level than its loop. A call on a marked
  fragment returns at once and needs none.
\<close>

primrec init_dependencies ::
  "nat \<Rightarrow> GPUSourceDictionnary \<Rightarrow> diag list \<Rightarrow> string \<Rightarrow> resolve_result option"
where
  "init_dependencies 0 dict out this =
     (case dict this of
        None \<Rightarrow> None
      | Some s \<Rightarrow> if dependencies_init s then Some (0, dict, out) else None)"
| "init_dependencies (Suc depth) dict out this =
     (case dict this of
        None \<Rightarrow> None
      | Some s \<Rightarrow>
         if dependencies_init s then Some (0, dict, out)
         else init_dependencies_loop (init_dependencies depth)
                (dict(this \<mapsto> s\<lparr>dependencies_init := True\<rparr>)) out
                this (fullpath s) (source s) (- 1))"

text \<open>\<open>build\<close> appends to the caller's vector; \<open>builtins_get\<close> folds over the list.\<close>

definition build :: "GPUSourceDictionnary \<Rightarrow> string \<Rightarrow> string list \<Rightarrow> string list option" where
  "build dict this result =
     (case dict this of
        None \<Rightarrow> None
      | Some s \<Rightarrow> Some (result @ map (source_of dict) (dependencies s) @ [source s]))"

definition builtins_of :: "GPUSourceDictionnary \<Rightarrow> string \<Rightarrow> BuiltinBits" where
  "builtins_of dict ptr = (case dict ptr of Some d \<Rightarrow> builtins d | None \<Rightarrow> {})"

definition builtins_get :: "GPUSourceDictionnary \<Rightarrow> GPUSource \<Rightarrow> BuiltinBits" where
  "builtins_get dict this =
     foldl (\<lambda>out_builtins dep. out_builtins \<union> builtins_of dict dep) {} (dependencies this)"

section \<open>The registry\<close>

text \<open>
  The entries \<open>SHADER_SOURCE(datatoc, filename, filepath)\<close> come from generated headers
  that are not among the sources, and \<open>g_sources->values()\<close> has the order of a hash table:
  the list of entries and the order of the resolution loop are parameters.
  \<open>add_new\<close> requires a new key.
\<close>

fun add_sources ::
  "nat \<Rightarrow> (string \<times> string \<times> string) list \<Rightarrow> GPUSourceDictionnary \<Rightarrow> GPUFunctionDictionnary
   \<Rightarrow> diag list \<Rightarrow> (GPUSourceDictionnary \<times> GPUFunctionDictionnary \<times> diag list) option"
where
  "add_sources capacity [] g_sources g_functions out = Some (g_sources, g_functions, out)"
| "add_sources capacity ((datatoc, file, filepath) # entries) g_sources g_functions out =
     (case GPUSource_new capacity g_sources filepath file datatoc g_functions out of
        None \<Rightarrow> None
      | Some (this, g_functions, out) \<Rightarrow>
         if file \<in> dom g_sources then None
         else add_sources capacity entries (g_sources(file \<mapsto> this)) g_functions out)"

fun init_all ::
  "nat \<Rightarrow> string list \<Rightarrow> int \<Rightarrow> GPUSourceDictionnary \<Rightarrow> diag list \<Rightarrow> resolve_result option"
where
  "init_all depth [] errors g_sources out = Some (errors, g_sources, out)"
| "init_all depth (v # values) errors g_sources out =
     (case init_dependencies depth g_sources out v of
        None \<Rightarrow> None
      | Some (r, g_sources, out) \<Rightarrow> init_all depth values (errors + r) g_sources out)"

definition gpu_shader_dependency_init ::
  "nat \<Rightarrow> nat \<Rightarrow> (string \<times> string \<times> string) list \<Rightarrow> string list
   \<Rightarrow> (int \<times> GPUSourceDictionnary \<times> GPUFunctionDictionnary \<times> diag list) option"
where
  "gpu_shader_dependency_init capacity depth entries values =
     (case add_sources capacity entries Map.empty Map.empty [] of
        None \<Rightarrow> None
      | Some (g_sources, g_functions, out) \<Rightarrow>
         (case init_all depth values 0 g_sources out of
            None \<Rightarrow> None
          | Some (errors, g_sources, out) \<Rightarrow> Some (errors, g_sources, g_functions, out)))"

definition gpu_shader_dependency_get_builtins :: "GPUSourceDictionnary \<Rightarrow> string \<Rightarrow> BuiltinBits" where
  "gpu_shader_dependency_get_builtins g_sources shader_source_name =
     (if shader_source_name = [] then {}
      else case g_sources shader_source_name of
             None \<Rightarrow> {}
           | Some src \<Rightarrow> builtins_get g_sources src)"

definition gpu_shader_dependency_get_resolved_source ::
  "GPUSourceDictionnary \<Rightarrow> string \<Rightarrow> string list option" where
  "gpu_shader_dependency_get_resolved_source g_sources shader_source_name =
     build g_sources shader_source_name []"

section \<open>Builtin flags of a constructed fragment\<close>

text \<open>
  C1. The claim: for a fragment constructed from raw text \<open>T\<close>, the flag of each builtin
  keyword is set if and only if the keyword occurs as a substring of \<open>T\<close>. The constructor
  tests \<open>source.find(keyword, 0)\<close> as a truth value, so the not-found result \<open>-1\<close> counts
  as true and only offset \<open>0\<close> counts as false. For the stage text \<open>void main() {}\<close>, which
  holds no builtin keyword, the constructor sets all thirteen flags; for a text that starts
  with \<open>gl_FragCoord\<close> it leaves that flag unset.
\<close>

theorem C1_builtin_flags_failing_input:
  "map_option (\<lambda>r. builtins (fst r))
     (GPUSource_new 36 Map.empty ''shaders/test_frag.glsl'' ''test_frag.glsl''
        ''void main() {}'' Map.empty [])
   = Some {FRAG_COORD, FRONT_FACING, GLOBAL_INVOCATION_ID, INSTANCE_ID, LOCAL_INVOCATION_ID,
           LOCAL_INVOCATION_INDEX, NUM_WORK_GROUP, POINT_COORD, POINT_SIZE, PRIMITIVE_ID,
           VERTEX_ID, WORK_GROUP_ID, WORK_GROUP_SIZE}
   \<and> \<not> sublist ''gl_FragCoord'' ''void main() {}''
   \<and> FRAG_COORD \<notin> scan_builtins ''gl_FragCoord = vec4(0.0);''
   \<and> sublist ''gl_FragCoord'' ''gl_FragCoord = vec4(0.0);''"
  by (simp add: GPUSource_new_def scan_builtins_def scan_builtin_def builtin_keywords_def
        StringRef_find_def endswith_def is_from_material_library_def startswith_def
        suffix_to_prefix sublist_Cons_right) blast

section \<open>Reasoning about the resolution loop\<close>

text \<open>
  Names for the values that one iteration of the loop computes from the text, an unfolding
  of the loop in these names, and an induction rule over the iterations of a run that
  returns.
\<close>

definition next_pos :: "string \<Rightarrow> int \<Rightarrow> int" where
  "next_pos src pos = StringRef_find src ''pragma BLENDER_REQUIRE('' (pos + 1)"

definition directive_start :: "string \<Rightarrow> int \<Rightarrow> int" where
  "directive_start src p = StringRef_find src ''('' p + 1"

definition directive_end :: "string \<Rightarrow> int \<Rightarrow> int" where
  "directive_end src p = StringRef_find src '')'' p"

definition directive_name :: "string \<Rightarrow> int \<Rightarrow> string" where
  "directive_name src p =
     StringRef_substr src (directive_start src p) (directive_end src p - directive_start src p)"

definition msg_malformed :: string where
  "msg_malformed = ''Malformed BLENDER_REQUIRE: Missing '' @ [CHR 0x22] @ '')'' @ [CHR 0x22] @ '' token''"

lemma init_dependencies_loop_unfold:
  "init_dependencies_loop recurse dict out this path src pos =
    (let p = next_pos src pos in
     if p = - 1 then Some (0, dict, out)
     else if directive_end src p = - 1
     then Some (1, dict, print_error path src (directive_start src p) msg_malformed out)
     else
       (case dict (directive_name src p) of
          None \<Rightarrow> Some (1, dict, print_error path src (directive_start src p) ''Dependency not found'' out)
        | Some dependency_source \<Rightarrow>
           (case recurse dict out (directive_name src p) of
              None \<Rightarrow> None
            | Some (result, dict1, out1) \<Rightarrow>
               if result \<noteq> 0 then Some (1, dict1, out1)
               else
                (case append_dependencies dict1 this (directive_name src p) of
                   None \<Rightarrow> None
                 | Some dict2 \<Rightarrow> init_dependencies_loop recurse dict2 out1 this path src p))))"
  unfolding next_pos_def directive_start_def directive_end_def directive_name_def
    msg_malformed_def
  by (subst init_dependencies_loop.simps) (simp add: Let_def)

lemma next_pos_bounds:
  "next_pos src pos \<noteq> - 1 \<Longrightarrow> pos < next_pos src pos \<and> next_pos src pos \<le> int (length src)"
  using StringRef_find_bounds [of src "''pragma BLENDER_REQUIRE(''" "pos + 1"]
  by (auto simp: next_pos_def)

lemma init_dependencies_loop_induct [consumes 1, case_names finished malformed missing failed step]:
  assumes run: "init_dependencies_loop recurse dict out this path src pos = Some res"
  and finished: "\<And>dict out pos. next_pos src pos = - 1 \<Longrightarrow> P dict out pos (0, dict, out)"
  and malformed: "\<And>dict out pos. next_pos src pos \<noteq> - 1 \<Longrightarrow>
        directive_end src (next_pos src pos) = - 1 \<Longrightarrow>
        P dict out pos
          (1, dict, print_error path src (directive_start src (next_pos src pos)) msg_malformed out)"
  and missing: "\<And>dict out pos. next_pos src pos \<noteq> - 1 \<Longrightarrow>
        directive_end src (next_pos src pos) \<noteq> - 1 \<Longrightarrow>
        dict (directive_name src (next_pos src pos)) = None \<Longrightarrow>
        P dict out pos
          (1, dict, print_error path src (directive_start src (next_pos src pos))
                      ''Dependency not found'' out)"
  and failed: "\<And>dict out pos r1 d1 o1. next_pos src pos \<noteq> - 1 \<Longrightarrow>
        directive_end src (next_pos src pos) \<noteq> - 1 \<Longrightarrow>
        dict (directive_name src (next_pos src pos)) \<noteq> None \<Longrightarrow>
        recurse dict out (directive_name src (next_pos src pos)) = Some (r1, d1, o1) \<Longrightarrow>
        r1 \<noteq> 0 \<Longrightarrow> P dict out pos (1, d1, o1)"
  and step: "\<And>dict out pos d1 o1 d2 res. next_pos src pos \<noteq> - 1 \<Longrightarrow>
        directive_end src (next_pos src pos) \<noteq> - 1 \<Longrightarrow>
        dict (directive_name src (next_pos src pos)) \<noteq> None \<Longrightarrow>
        recurse dict out (directive_name src (next_pos src pos)) = Some (0, d1, o1) \<Longrightarrow>
        append_dependencies d1 this (directive_name src (next_pos src pos)) = Some d2 \<Longrightarrow>
        init_dependencies_loop recurse d2 o1 this path src (next_pos src pos) = Some res \<Longrightarrow>
        P d2 o1 (next_pos src pos) res \<Longrightarrow> P dict out pos res"
  shows "P dict out pos res"
  using run
proof (induction "nat (int (length src) + 1 - pos)" arbitrary: dict out pos rule: less_induct)
  case less
  let ?p = "next_pos src pos"
  note run = less.prems [unfolded init_dependencies_loop_unfold [of recurse dict out this path src pos]]
  show ?case
  proof (cases "?p = - 1")
    case True
    have "P dict out pos (0, dict, out)" using True by (rule finished)
    with run True show ?thesis by (auto simp: Let_def)
  next
    case p: False
    show ?thesis
    proof (cases "directive_end src ?p = - 1")
      case True
      have "P dict out pos
              (1, dict, print_error path src (directive_start src ?p) msg_malformed out)"
        using p True by (rule malformed)
      with run p True show ?thesis by (auto simp: Let_def)
    next
      case e: False
      show ?thesis
      proof (cases "dict (directive_name src ?p)")
        case None
        have "P dict out pos
                (1, dict, print_error path src (directive_start src ?p) ''Dependency not found'' out)"
          using p e None by (rule missing)
        with run p e None show ?thesis by (auto simp: Let_def)
      next
        case (Some ds)
        then have ne: "dict (directive_name src ?p) \<noteq> None" by simp
        from run p e Some obtain r1 d1 o1 where
          rec: "recurse dict out (directive_name src ?p) = Some (r1, d1, o1)"
          by (auto simp: Let_def split: option.splits)
        show ?thesis
        proof (cases "r1 = 0")
          case False
          have "P dict out pos (1, d1, o1)" using p e ne rec False by (rule failed)
          with run p e Some rec False show ?thesis by (auto simp: Let_def)
        next
          case True
          with run p e Some rec obtain d2 where
            app: "append_dependencies d1 this (directive_name src ?p) = Some d2"
            and rest: "init_dependencies_loop recurse d2 o1 this path src ?p = Some res"
            by (auto simp: Let_def split: option.splits)
          have "nat (int (length src) + 1 - ?p) < nat (int (length src) + 1 - pos)"
            using next_pos_bounds [OF p] by simp
          from less.hyps [OF this rest] have ih: "P d2 o1 ?p res" .
          show ?thesis using p e ne rec [unfolded True] app rest ih by (rule step)
        qed
      qed
    qed
  qed
qed

section \<open>What a resolution call changes\<close>

text \<open>
  A call changes only the two fields \<open>dependencies\<close> and \<open>dependencies_init\<close>, never
  clears a mark, leaves every fragment that was already marked as it was, and ends with
  its own fragment marked.
\<close>

definition resolved :: "GPUSourceDictionnary \<Rightarrow> string \<Rightarrow> bool" where
  "resolved dict X \<longleftrightarrow> (\<exists>s. dict X = Some s \<and> dependencies_init s)"

definition same_fragment :: "GPUSource \<Rightarrow> GPUSource \<Rightarrow> bool" where
  "same_fragment s s' \<longleftrightarrow>
     fullpath s' = fullpath s \<and> filename s' = filename s \<and> source s' = source s \<and>
     builtins s' = builtins s \<and> processed_source s' = processed_source s"

definition evolves :: "GPUSourceDictionnary \<Rightarrow> GPUSourceDictionnary \<Rightarrow> bool" where
  "evolves d d' \<longleftrightarrow>
     (\<forall>X. (d X = None \<longrightarrow> d' X = None) \<and>
          (\<forall>s. d X = Some s \<longrightarrow>
             (\<exists>s'. d' X = Some s' \<and> same_fragment s s' \<and>
                   (dependencies_init s \<longrightarrow> dependencies_init s'))))"

definition keeps :: "string set \<Rightarrow> GPUSourceDictionnary \<Rightarrow> GPUSourceDictionnary \<Rightarrow> bool" where
  "keeps K d d' \<longleftrightarrow>
     (\<forall>X s. X \<notin> K \<longrightarrow> d X = Some s \<longrightarrow> dependencies_init s \<longrightarrow> d' X = Some s)"

lemma evolves_refl: "evolves d d"
  by (simp add: evolves_def same_fragment_def)

lemma evolves_trans: "evolves a b \<Longrightarrow> evolves b c \<Longrightarrow> evolves a c"
  unfolding evolves_def same_fragment_def
  apply clarsimp
  subgoal for X s
    apply (drule spec [of _ X])+
    apply clarsimp
    done
  done

lemma evolves_mark:
  "d X = Some s \<Longrightarrow> evolves d (d(X \<mapsto> s\<lparr>dependencies_init := True\<rparr>))"
  by (simp add: evolves_def same_fragment_def)

lemma evolves_append:
  "append_dependencies d this nm = Some d' \<Longrightarrow> evolves d d'"
  by (auto simp: evolves_def same_fragment_def append_dependencies_def split: option.splits)

lemma evolves_resolved: "evolves d d' \<Longrightarrow> resolved d X \<Longrightarrow> resolved d' X"
  unfolding evolves_def resolved_def by fastforce

lemma evolves_dom: "evolves d d' \<Longrightarrow> dom d' = dom d"
  unfolding evolves_def by (fastforce simp: dom_def)

lemma keeps_refl: "keeps K d d"
  by (simp add: keeps_def)

lemma keeps_trans: "keeps K a b \<Longrightarrow> keeps K b c \<Longrightarrow> keeps K a c"
  unfolding keeps_def by blast

lemma keeps_mono: "keeps K a b \<Longrightarrow> K \<subseteq> K' \<Longrightarrow> keeps K' a b"
  unfolding keeps_def by blast

lemma keeps_empty: "keeps {} a b \<Longrightarrow> keeps K a b"
  unfolding keeps_def by blast

lemma keeps_append: "append_dependencies d this nm = Some d' \<Longrightarrow> keeps {this} d d'"
  by (auto simp: keeps_def append_dependencies_def split: option.splits)

definition frame_ok :: "string set \<Rightarrow> GPUSourceDictionnary \<Rightarrow> resolve_result \<Rightarrow> bool" where
  "frame_ok K d res \<longleftrightarrow>
     (case res of (r, d', out') \<Rightarrow> evolves d d' \<and> keeps K d d' \<and> (r = 0 \<or> r = 1))"

lemma loop_frame:
  assumes run: "init_dependencies_loop recurse dict out this path src pos = Some res"
    and rec: "\<And>d ou nm res. recurse d ou nm = Some res \<Longrightarrow> frame_ok {} d res"
  shows "frame_ok {this} dict res"
  using run
proof (induction rule: init_dependencies_loop_induct)
  case (failed dict out pos r1 d1 o1)
  from rec [OF failed(4)] show ?case by (simp add: frame_ok_def keeps_empty)
next
  case (step dict out pos d1 o1 d2 res)
  from rec [OF step(4)] have a: "evolves dict d1" "keeps {this} dict d1"
    by (simp_all add: frame_ok_def keeps_empty)
  note b = evolves_append [OF step(5)] keeps_append [OF step(5)]
  from step(7) a b show ?case
    by (auto simp: frame_ok_def intro: evolves_trans keeps_trans)
qed (simp_all add: frame_ok_def evolves_refl keeps_refl)

lemma init_dependencies_frame:
  "init_dependencies n dict out this = Some res \<Longrightarrow> frame_ok {} dict res"
proof (induction n arbitrary: dict out this res)
  case 0
  then show ?case
    by (auto simp: frame_ok_def evolves_refl keeps_refl split: option.splits if_splits)
next
  case (Suc n)
  from Suc.prems obtain s where s: "dict this = Some s"
    by (auto split: option.splits)
  show ?case
  proof (cases "dependencies_init s")
    case True
    with Suc.prems s show ?thesis
      by (auto simp: frame_ok_def evolves_refl keeps_refl)
  next
    case False
    let ?d1 = "dict(this \<mapsto> s\<lparr>dependencies_init := True\<rparr>)"
    from Suc.prems s False have
      run: "init_dependencies_loop (init_dependencies n) ?d1 out this (fullpath s) (source s) (- 1)
              = Some res" by simp
    have "frame_ok {this} ?d1 res"
      using run by (rule loop_frame) (rule Suc.IH)
    moreover have "evolves dict ?d1" using s by (rule evolves_mark)
    moreover have "keeps {} dict ?d1" using s False by (auto simp: keeps_def)
    moreover have "\<And>d'. keeps {this} ?d1 d' \<Longrightarrow> keeps {} dict d'"
      using s False unfolding keeps_def
      by (metis empty_iff fun_upd_other option.inject singletonD)
    ultimately show ?thesis
      by (auto simp: frame_ok_def intro: evolves_trans)
  qed
qed

lemma init_dependencies_resolved:
  "init_dependencies n dict out this = Some (r, dict', out') \<Longrightarrow> resolved dict' this"
proof (cases n)
  case 0
  assume "init_dependencies n dict out this = Some (r, dict', out')"
  with 0 show ?thesis by (auto simp: resolved_def split: option.splits if_splits)
next
  case (Suc m)
  assume a: "init_dependencies n dict out this = Some (r, dict', out')"
  then obtain s where s: "dict this = Some s" using Suc by (auto split: option.splits)
  show ?thesis
  proof (cases "dependencies_init s")
    case True
    with a s Suc show ?thesis by (auto simp: resolved_def)
  next
    case False
    let ?d1 = "dict(this \<mapsto> s\<lparr>dependencies_init := True\<rparr>)"
    from a s False Suc have
      run: "init_dependencies_loop (init_dependencies m) ?d1 out this (fullpath s) (source s) (- 1)
              = Some (r, dict', out')" by simp
    have "frame_ok {this} ?d1 (r, dict', out')"
      using run by (rule loop_frame) (rule init_dependencies_frame)
    then have "evolves ?d1 dict'" by (simp add: frame_ok_def)
    moreover have "resolved ?d1 this" by (simp add: resolved_def)
    ultimately show ?thesis by (rule evolves_resolved)
  qed
qed

section \<open>Resolution returns\<close>

text \<open>
  A call marks its fragment before it scans, so every level of the recursion removes one
  fragment from the unmarked ones: as many levels as there are unmarked fragments are enough,
  whatever the require graph looks like.
\<close>

definition unresolved :: "GPUSourceDictionnary \<Rightarrow> string set" where
  "unresolved dict = {X. \<exists>s. dict X = Some s \<and> \<not> dependencies_init s}"

lemma unresolved_subset_dom: "unresolved dict \<subseteq> dom dict"
  by (auto simp: unresolved_def)

lemma evolves_unresolved: "evolves d d' \<Longrightarrow> unresolved d' \<subseteq> unresolved d"
  unfolding evolves_def unresolved_def
  by clarsimp (metis option.exhaust option.inject option.distinct(1))

lemma unresolved_mark:
  "dict this = Some s \<Longrightarrow> \<not> dependencies_init s \<Longrightarrow>
   unresolved (dict(this \<mapsto> s\<lparr>dependencies_init := True\<rparr>)) = unresolved dict - {this}"
  by (auto simp: unresolved_def)

lemma append_dependencies_total:
  "this \<in> dom d \<Longrightarrow> nm \<in> dom d \<Longrightarrow> \<exists>d'. append_dependencies d this nm = Some d'"
  by (auto simp: append_dependencies_def)

lemma loop_returns:
  assumes rec: "\<And>d ou nm. finite (dom d) \<Longrightarrow> nm \<in> dom d \<Longrightarrow> card (unresolved d) \<le> n \<Longrightarrow>
                  \<exists>res. recurse d ou nm = Some res"
    and recf: "\<And>d ou nm res. recurse d ou nm = Some res \<Longrightarrow> frame_ok {} d res"
  shows "finite (dom dict) \<Longrightarrow> this \<in> dom dict \<Longrightarrow> card (unresolved dict) \<le> n \<Longrightarrow>
         \<exists>res. init_dependencies_loop recurse dict out this path src pos = Some res"
proof (induction "nat (int (length src) + 1 - pos)" arbitrary: dict out pos rule: less_induct)
  case less
  let ?p = "next_pos src pos"
  let ?nm = "directive_name src ?p"
  note unf = init_dependencies_loop_unfold [of recurse dict out this path src pos]
  show ?case
  proof (cases "?p = - 1 \<or> directive_end src ?p = - 1 \<or> dict ?nm = None")
    case True
    then show ?thesis unfolding unf by (auto simp: Let_def)
  next
    case False
    then have p: "?p \<noteq> - 1" and e: "directive_end src ?p \<noteq> - 1" and nm: "?nm \<in> dom dict"
      by auto
    from rec [OF less.prems(1) nm less.prems(3)] obtain r1 d1 o1 where
      r: "recurse dict out ?nm = Some (r1, d1, o1)" by (metis prod_cases3)
    from recf [OF r] have ev: "evolves dict d1" by (simp add: frame_ok_def)
    show ?thesis
    proof (cases "r1 = 0")
      case False
      with p e nm r show ?thesis unfolding unf by (auto simp: Let_def)
    next
      case True
      have dom1: "dom d1 = dom dict" using ev by (rule evolves_dom)
      with less.prems nm obtain d2 where
        app: "append_dependencies d1 this ?nm = Some d2"
        using append_dependencies_total [of this d1 ?nm] by auto
      have ev2: "evolves dict d2" using ev evolves_append [OF app] by (rule evolves_trans)
      have fin: "finite (dom d2)" and th: "this \<in> dom d2"
        using evolves_dom [OF ev2] less.prems by auto
      have "card (unresolved d2) \<le> card (unresolved dict)"
        using evolves_unresolved [OF ev2] less.prems(1) unresolved_subset_dom [of dict]
        by (meson card_mono finite_subset)
      then have c: "card (unresolved d2) \<le> n" using less.prems(3) by simp
      have "nat (int (length src) + 1 - ?p) < nat (int (length src) + 1 - pos)"
        using next_pos_bounds [OF p] by simp
      from less.hyps [OF this fin th c, of o1] obtain r2 d3 o3 where
        "init_dependencies_loop recurse d2 o1 this path src ?p = Some (r2, d3, o3)"
        by (metis prod_cases3)
      with p e nm r True app show ?thesis unfolding unf by (auto simp: Let_def)
    qed
  qed
qed

lemma init_dependencies_returns:
  "finite (dom dict) \<Longrightarrow> this \<in> dom dict \<Longrightarrow> card (unresolved dict) \<le> depth \<Longrightarrow>
   \<exists>res. init_dependencies depth dict out this = Some res"
proof (induction depth arbitrary: dict out this)
  case 0
  then have "unresolved dict = {}"
    using unresolved_subset_dom [of dict] by (simp add: finite_subset)
  with 0 show ?case by (auto simp: unresolved_def)
next
  case (Suc n)
  from Suc.prems obtain s where s: "dict this = Some s" by auto
  show ?case
  proof (cases "dependencies_init s")
    case True
    with s show ?thesis by simp
  next
    case False
    let ?d1 = "dict(this \<mapsto> s\<lparr>dependencies_init := True\<rparr>)"
    have fin: "finite (unresolved dict)"
      using Suc.prems(1) unresolved_subset_dom [of dict] by (rule rev_finite_subset)
    have "this \<in> unresolved dict" using s False by (auto simp: unresolved_def)
    then have c: "card (unresolved ?d1) \<le> n"
      using Suc.prems(3) fin s False by (simp add: unresolved_mark [of dict this s])
    have "\<exists>res. init_dependencies_loop (init_dependencies n) ?d1 out this
                   (fullpath s) (source s) (- 1) = Some res"
    proof (rule loop_returns [where n = n])
      show "\<exists>res. init_dependencies n d ou nm = Some res"
        if "finite (dom d)" "nm \<in> dom d" "card (unresolved d) \<le> n" for d ou nm
        using that by (rule Suc.IH)
      show "frame_ok {} d res" if "init_dependencies n d ou nm = Some res" for d ou nm res
        using that by (rule init_dependencies_frame)
      show "finite (dom ?d1)" "this \<in> dom ?d1" using Suc.prems by auto
      show "card (unresolved ?d1) \<le> n" by (rule c)
    qed
    with s False show ?thesis by simp
  qed
qed


lemma resolved_returns:
  "resolved dict this \<Longrightarrow> init_dependencies depth dict out this = Some (0, dict, out)"
  by (cases depth) (auto simp: resolved_def)

section \<open>Example registries\<close>

definition fragment :: "string \<Rightarrow> string \<Rightarrow> GPUSource" where
  "fragment file text =
     \<lparr>fullpath = ''shaders/'' @ file, filename = file, source = text, dependencies = [],
      dependencies_init = False, builtins = scan_builtins text, processed_source = []\<rparr>"

definition resolved_fragment :: "string \<Rightarrow> string \<Rightarrow> string list \<Rightarrow> GPUSource" where
  "resolved_fragment file text deps =
     (fragment file text)\<lparr>dependencies := deps, dependencies_init := True\<rparr>"

text \<open>\<open>a\<close> requires \<open>b\<close>, \<open>b\<close> requires \<open>c\<close>, \<open>c\<close> requires nothing.\<close>

definition chain_registry :: GPUSourceDictionnary where
  "chain_registry =
     [''a'' \<mapsto> fragment ''a'' ''#pragma BLENDER_REQUIRE(b)'',
      ''b'' \<mapsto> fragment ''b'' ''#pragma BLENDER_REQUIRE(c)'',
      ''c'' \<mapsto> fragment ''c'' ''void main() {}'']"

definition chain_resolved :: GPUSourceDictionnary where
  "chain_resolved =
     [''c'' \<mapsto> resolved_fragment ''c'' ''void main() {}'' [],
      ''b'' \<mapsto> resolved_fragment ''b'' ''#pragma BLENDER_REQUIRE(c)'' [''c''],
      ''a'' \<mapsto> resolved_fragment ''a'' ''#pragma BLENDER_REQUIRE(b)'' [''c'', ''b'']]"

text \<open>\<open>a\<close> requires \<open>b\<close> and \<open>b\<close> requires \<open>a\<close>.\<close>

definition cycle_registry :: GPUSourceDictionnary where
  "cycle_registry =
     [''a'' \<mapsto> fragment ''a'' ''#pragma BLENDER_REQUIRE(b)'',
      ''b'' \<mapsto> fragment ''b'' ''#pragma BLENDER_REQUIRE(a)'']"

lemmas eval_strings = StringRef_find_def StringRef_rfind_def StringRef_substr_def
  next_pos_def directive_start_def directive_end_def directive_name_def print_error_def
  msg_malformed_def newline_def

lemmas eval_resolve = init_dependencies_loop_unfold append_dependencies_def
  append_non_duplicates_def fragment_def resolved_fragment_def Let_def

lemma chain_registry_run:
  "init_dependencies (Suc (Suc (Suc 0))) chain_registry [] ''a'' = Some (0, chain_resolved, [])"
  by (simp add: chain_registry_def chain_resolved_def eval_resolve eval_strings)

section \<open>Repeated resolution\<close>

text \<open>
  C5. Resolving a fragment \<open>F\<close> a second time, after a first call has returned, is
  idempotent: the second call returns at once and leaves the registry, and with it the
  dependency list of \<open>F\<close> and its order, as the first call left it.
\<close>

theorem C5_second_resolve_changes_nothing:
  "init_dependencies n dict out F = Some (r, dict', out') \<Longrightarrow>
   init_dependencies m dict' out' F = Some (0, dict', out')"
  by (rule resolved_returns) (rule init_dependencies_resolved)

theorem C5_second_resolve_changes_nothing_witness:
  "init_dependencies (Suc (Suc (Suc 0))) chain_registry [] ''a'' = Some (0, chain_resolved, []) \<and>
   init_dependencies 0 chain_resolved [] ''a'' = Some (0, chain_resolved, []) \<and>
   map_option dependencies (chain_resolved ''a'') = Some [''c'', ''b'']"
proof -
  have h: "init_dependencies (Suc (Suc (Suc 0))) chain_registry [] ''a''
             = Some (0, chain_resolved, [])"
    by (rule chain_registry_run)
  have d: "map_option dependencies (chain_resolved ''a'') = Some [''c'', ''b'']"
    by (simp add: chain_resolved_def resolved_fragment_def)
  from h d C5_second_resolve_changes_nothing [OF h, of 0] show ?thesis by simp
qed

section \<open>Termination of resolution\<close>

text \<open>
  C9. \<open>init_dependencies\<close> returns for every finite registry and every fragment of it,
  cycles in the require graph included: a recursion depth equal to the number of registered
  fragments is enough. The fragment is marked when the call returns, so that no later call
  scans it again (\<open>resolved_returns\<close>).
\<close>

theorem C9_init_dependencies_returns:
  "finite (dom dict) \<Longrightarrow> this \<in> dom dict \<Longrightarrow> card (dom dict) \<le> depth \<Longrightarrow>
   \<exists>r dict' out'. init_dependencies depth dict out this = Some (r, dict', out') \<and>
                  resolved dict' this"
proof -
  assume fin: "finite (dom dict)" and th: "this \<in> dom dict" and c: "card (dom dict) \<le> depth"
  have "card (unresolved dict) \<le> card (dom dict)"
    using fin unresolved_subset_dom by (rule card_mono)
  with c have "card (unresolved dict) \<le> depth" by simp
  from init_dependencies_returns [OF fin th this, of out] obtain r dict' out' where
    run: "init_dependencies depth dict out this = Some (r, dict', out')"
    by (metis prod_cases3)
  from run init_dependencies_resolved [OF run] show ?thesis by blast
qed

theorem C9_init_dependencies_returns_witness:
  "finite (dom cycle_registry) \<and> ''a'' \<in> dom cycle_registry \<and> card (dom cycle_registry) \<le> 2 \<and>
   (\<exists>r dict' out'. init_dependencies 2 cycle_registry [] ''a'' = Some (r, dict', out') \<and>
                   resolved dict' ''a'')"
proof -
  have h1: "finite (dom cycle_registry)" by (simp add: cycle_registry_def)
  have h2: "''a'' \<in> dom cycle_registry" by (simp add: cycle_registry_def)
  have h3: "card (dom cycle_registry) \<le> 2" by (simp add: cycle_registry_def)
  from h1 h2 h3 C9_init_dependencies_returns [OF h1 h2 h3, of "[]"] show ?thesis by blast
qed

section \<open>The require graph and the dependency lists\<close>

text \<open>
  \<open>require_names src pos\<close> lists the names that the loop of \<open>init_dependencies\<close> looks up
  in \<open>src\<close> after offset \<open>pos\<close>: the scan ends at the first directive without a closing
  parenthesis. \<open>requires\<close> is the require graph of a registry: an edge from a fragment to
  every name its text requires.
\<close>

function require_names :: "string \<Rightarrow> int \<Rightarrow> string list" where
  "require_names src pos =
     (let p = next_pos src pos in
      if p = - 1 then []
      else if directive_end src p = - 1 then []
      else directive_name src p # require_names src p)"
  by pat_completeness auto
termination
  apply (relation "measure (\<lambda>(src, pos). nat (int (length src) + 1 - pos))")
   apply simp
  subgoal for src pos
    using next_pos_bounds [of src pos] by auto
  done

declare require_names.simps [simp del]

definition requires :: "GPUSourceDictionnary \<Rightarrow> (string \<times> string) set" where
  "requires dict = {(X, Y). \<exists>s. dict X = Some s \<and> Y \<in> set (require_names (source s) (- 1))}"

lemma evolves_requires: "evolves d d' \<Longrightarrow> requires d' = requires d"
  unfolding requires_def evolves_def same_fragment_def
  apply (intro set_eqI iffI; clarsimp)
   apply (metis option.exhaust option.inject option.distinct(1))
  apply metis
  done

lemma require_names_step:
  "next_pos src pos \<noteq> - 1 \<Longrightarrow> directive_end src (next_pos src pos) \<noteq> - 1 \<Longrightarrow>
   require_names src pos = directive_name src (next_pos src pos) # require_names src (next_pos src pos)"
  by (subst require_names.simps) (simp add: Let_def)

text \<open>
  The invariant of the lists: no duplicates, and every entry is required, directly or
  through others, by the owner of the list and is marked.
\<close>

definition deps_inv :: "GPUSourceDictionnary \<Rightarrow> bool" where
  "deps_inv dict \<longleftrightarrow>
     (\<forall>X s. dict X = Some s \<longrightarrow>
        distinct (dependencies s) \<and>
        (\<forall>D \<in> set (dependencies s). (X, D) \<in> (requires dict)\<^sup>+ \<and> resolved dict D))"

lemma distinct_append_non_duplicates:
  "distinct xs \<Longrightarrow> distinct (append_non_duplicates xs x)"
  by (simp add: append_non_duplicates_def)

lemma set_append_non_duplicates: "set (append_non_duplicates xs x) = insert x (set xs)"
  by (auto simp: append_non_duplicates_def)

lemma distinct_foldl_append_non_duplicates:
  "distinct xs \<Longrightarrow> distinct (foldl append_non_duplicates xs ys)"
  by (induction ys arbitrary: xs) (simp_all add: distinct_append_non_duplicates)

lemma set_foldl_append_non_duplicates:
  "set (foldl append_non_duplicates xs ys) = set xs \<union> set ys"
  by (induction ys arbitrary: xs) (auto simp: set_append_non_duplicates)

lemma deps_inv_append:
  assumes inv: "deps_inv d" and app: "append_dependencies d this nm = Some d'"
    and req: "(this, nm) \<in> requires d" and res: "resolved d nm"
  shows "deps_inv d'"
proof -
  from app obtain t u where t: "d this = Some t" and u: "d nm = Some u"
    and d': "d' = d(this \<mapsto> t\<lparr>dependencies := append_non_duplicates
                 (foldl append_non_duplicates (dependencies t) (dependencies u)) nm\<rparr>)"
    by (auto simp: append_dependencies_def split: option.splits)
  have ev: "evolves d d'" using app by (rule evolves_append)
  have rq: "requires d' = requires d" using ev by (rule evolves_requires)
  have rs: "\<And>D. resolved d D \<Longrightarrow> resolved d' D" using ev by (rule evolves_resolved)
  show ?thesis
    unfolding deps_inv_def rq
  proof (intro allI impI)
    fix X s assume Xs: "d' X = Some s"
    show "distinct (dependencies s) \<and>
          (\<forall>D \<in> set (dependencies s). (X, D) \<in> (requires d)\<^sup>+ \<and> resolved d' D)"
    proof (cases "X = this")
      case False
      with Xs d' have "d X = Some s" by simp
      with inv rs show ?thesis unfolding deps_inv_def by blast
    next
      case True
      with Xs d' have s: "dependencies s = append_non_duplicates
                 (foldl append_non_duplicates (dependencies t) (dependencies u)) nm" by auto
      have dt: "distinct (dependencies t)" using inv t unfolding deps_inv_def by blast
      have a: "\<And>D. D \<in> set (dependencies t) \<Longrightarrow> (this, D) \<in> (requires d)\<^sup>+ \<and> resolved d D"
        using inv t unfolding deps_inv_def by blast
      have b: "\<And>D. D \<in> set (dependencies u) \<Longrightarrow> (nm, D) \<in> (requires d)\<^sup>+ \<and> resolved d D"
        using inv u unfolding deps_inv_def by blast
      have c: "\<And>D. D \<in> set (dependencies u) \<Longrightarrow> (this, D) \<in> (requires d)\<^sup>+"
        using b req by (meson trancl_into_trancl2)
      show ?thesis
        unfolding s True
        using dt a b c req res rs
        by (auto simp: set_append_non_duplicates set_foldl_append_non_duplicates
              intro!: distinct_append_non_duplicates distinct_foldl_append_non_duplicates)
    qed
  qed
qed

lemma deps_inv_mark:
  assumes inv: "deps_inv d" and s: "d X = Some s"
  shows "deps_inv (d(X \<mapsto> s\<lparr>dependencies_init := True\<rparr>))"
proof -
  let ?d' = "d(X \<mapsto> s\<lparr>dependencies_init := True\<rparr>)"
  have ev: "evolves d ?d'" using s by (rule evolves_mark)
  have rq: "requires ?d' = requires d" using ev by (rule evolves_requires)
  have rs: "\<And>D. resolved d D \<Longrightarrow> resolved ?d' D" using ev by (rule evolves_resolved)
  show ?thesis
    unfolding deps_inv_def rq
    using inv s rs unfolding deps_inv_def
    by (auto split: if_splits)
qed


definition scanning :: "GPUSourceDictionnary \<Rightarrow> string \<Rightarrow> string \<Rightarrow> int \<Rightarrow> bool" where
  "scanning dict this src pos \<longleftrightarrow>
     (\<exists>s. dict this = Some s \<and> source s = src) \<and>
     set (require_names src pos) \<subseteq> set (require_names src (- 1))"

lemma scanning_start:
  "scanning (dict(this \<mapsto> s\<lparr>dependencies_init := True\<rparr>)) this (source s) (- 1)"
  by (simp add: scanning_def)

lemma scanning_requires:
  "scanning dict this src pos \<Longrightarrow> next_pos src pos \<noteq> - 1 \<Longrightarrow>
   directive_end src (next_pos src pos) \<noteq> - 1 \<Longrightarrow>
   (this, directive_name src (next_pos src pos)) \<in> requires dict"
  by (auto simp: scanning_def requires_def require_names_step)

lemma scanning_step:
  "scanning dict this src pos \<Longrightarrow> next_pos src pos \<noteq> - 1 \<Longrightarrow>
   directive_end src (next_pos src pos) \<noteq> - 1 \<Longrightarrow> evolves dict d2 \<Longrightarrow>
   scanning d2 this src (next_pos src pos)"
  unfolding scanning_def evolves_def same_fragment_def
  by (auto simp: require_names_step) metis

lemma loop_deps_inv:
  assumes run: "init_dependencies_loop recurse dict out this path src pos = Some res"
    and rec: "\<And>d ou nm res. recurse d ou nm = Some res \<Longrightarrow> deps_inv d \<Longrightarrow>
                 deps_inv (fst (snd res)) \<and> frame_ok {} d res \<and> resolved (fst (snd res)) nm"
  shows "deps_inv dict \<Longrightarrow> scanning dict this src pos \<Longrightarrow> deps_inv (fst (snd res))"
  using run
proof (induction rule: init_dependencies_loop_induct)
  case (failed dict out pos r1 d1 o1)
  from rec [OF failed(4) failed(6)] show ?case by simp
next
  case (step dict out pos d1 o1 d2 res)
  let ?nm = "directive_name src (next_pos src pos)"
  from rec [OF step(4) step(8)] have i1: "deps_inv d1" and ev1: "evolves dict d1"
    and rs: "resolved d1 ?nm" by (simp_all add: frame_ok_def)
  have "(this, ?nm) \<in> requires dict" using step(9) step(1) step(2) by (rule scanning_requires)
  then have rq: "(this, ?nm) \<in> requires d1" using evolves_requires [OF ev1] by simp
  have i2: "deps_inv d2" using i1 step(5) rq rs by (rule deps_inv_append)
  have "evolves dict d2" using ev1 evolves_append [OF step(5)] by (rule evolves_trans)
  with step(9) step(1) step(2) have "scanning d2 this src (next_pos src pos)"
    by (rule scanning_step)
  with i2 show ?case by (rule step(7))
qed simp_all

lemma init_dependencies_deps_inv:
  "init_dependencies n dict out this = Some res \<Longrightarrow> deps_inv dict \<Longrightarrow> deps_inv (fst (snd res))"
proof (induction n arbitrary: dict out this res)
  case 0
  then show ?case by (auto split: option.splits if_splits)
next
  case (Suc n)
  from Suc.prems obtain s where s: "dict this = Some s" by (auto split: option.splits)
  show ?case
  proof (cases "dependencies_init s")
    case True
    with Suc.prems s show ?thesis by auto
  next
    case False
    let ?d1 = "dict(this \<mapsto> s\<lparr>dependencies_init := True\<rparr>)"
    from Suc.prems s False have
      run: "init_dependencies_loop (init_dependencies n) ?d1 out this (fullpath s) (source s) (- 1)
              = Some res" by simp
    show ?thesis
      using run
    proof (rule loop_deps_inv)
      show "deps_inv ?d1" using Suc.prems(2) s by (rule deps_inv_mark)
      show "scanning ?d1 this (source s) (- 1)" by (rule scanning_start)
      show "deps_inv (fst (snd res)) \<and> frame_ok {} d res \<and> resolved (fst (snd res)) nm"
        if "init_dependencies n d ou nm = Some res" "deps_inv d" for d ou nm res
        using that Suc.IH [OF that] init_dependencies_frame [OF that(1)]
          init_dependencies_resolved [of n d ou nm "fst res" "fst (snd res)" "snd (snd res)"]
        by simp
    qed
  qed
qed

section \<open>Dependency lists have no duplicates\<close>

text \<open>
  A fresh registry is what construction leaves: no fragment is marked and every list is
  empty.
\<close>

definition fresh_registry :: "GPUSourceDictionnary \<Rightarrow> bool" where
  "fresh_registry dict \<longleftrightarrow>
     (\<forall>X s. dict X = Some s \<longrightarrow> dependencies s = [] \<and> \<not> dependencies_init s)"

text \<open>
  The states of a resolution: a fresh registry, and what marking a fragment, appending one
  required and marked fragment to a list, or a whole call makes of a state.
\<close>

inductive resolution_state :: "GPUSourceDictionnary \<Rightarrow> bool" where
  fresh: "fresh_registry dict \<Longrightarrow> resolution_state dict"
| mark: "resolution_state dict \<Longrightarrow> dict X = Some s \<Longrightarrow>
         resolution_state (dict(X \<mapsto> s\<lparr>dependencies_init := True\<rparr>))"
| append: "resolution_state dict \<Longrightarrow> dict X = Some s \<Longrightarrow> (X, D) \<in> (requires dict)\<^sup>+ \<Longrightarrow>
           resolved dict D \<Longrightarrow>
           resolution_state (dict(X \<mapsto> s\<lparr>dependencies := append_non_duplicates (dependencies s) D\<rparr>))"
| call: "resolution_state dict \<Longrightarrow> init_dependencies n dict out this = Some (r, dict', out') \<Longrightarrow>
         resolution_state dict'"

lemma deps_inv_append_one:
  assumes inv: "deps_inv d" and s: "d X = Some s" and req: "(X, D) \<in> (requires d)\<^sup>+"
    and res: "resolved d D"
  shows "deps_inv (d(X \<mapsto> s\<lparr>dependencies := append_non_duplicates (dependencies s) D\<rparr>))"
proof -
  let ?d' = "d(X \<mapsto> s\<lparr>dependencies := append_non_duplicates (dependencies s) D\<rparr>)"
  have ev: "evolves d ?d'" using s by (auto simp: evolves_def same_fragment_def)
  have rq: "requires ?d' = requires d" using ev by (rule evolves_requires)
  have rs: "\<And>D. resolved d D \<Longrightarrow> resolved ?d' D" using ev by (rule evolves_resolved)
  show ?thesis
    unfolding deps_inv_def rq
    using inv s rs req res unfolding deps_inv_def
    by (auto simp: set_append_non_duplicates distinct_append_non_duplicates split: if_splits)
qed

lemma resolution_state_deps_inv: "resolution_state dict \<Longrightarrow> deps_inv dict"
proof (induction rule: resolution_state.induct)
  case (fresh dict)
  then show ?case by (auto simp: fresh_registry_def deps_inv_def)
next
  case (mark dict X s)
  from mark(3) mark(2) show ?case by (rule deps_inv_mark)
next
  case (append dict X s D)
  from append(5) append(2) append(3) append(4) show ?case by (rule deps_inv_append_one)
next
  case (call dict n out this r dict' out')
  from init_dependencies_deps_inv [OF call(2) call(3)] show ?case by simp
qed

definition self_registry :: GPUSourceDictionnary where
  "self_registry = [''a'' \<mapsto> fragment ''a'' ''#pragma BLENDER_REQUIRE(a)'']"

definition self_resolved :: GPUSourceDictionnary where
  "self_resolved = [''a'' \<mapsto> resolved_fragment ''a'' ''#pragma BLENDER_REQUIRE(a)'' [''a'']]"

text \<open>
  C6. The claim: at every point during and after dependency resolution, the dependency list
  of a fragment holds no duplicates and never the fragment itself. The first half holds.
  The second fails for a fragment that requires itself, directly or through others: the
  resolver has no notion of a cycle, the recursive call on a marked fragment returns at
  once, and the fragment is appended to its own list.
\<close>

theorem C6_self_require_counterexample:
  "init_dependencies (Suc 0) self_registry [] ''a'' = Some (0, self_resolved, []) \<and>
   map_option dependencies (self_resolved ''a'') = Some [''a'']"
  by (simp add: self_registry_def self_resolved_def eval_resolve eval_strings)

text \<open>
  C6, amended. In every state of a resolution (\<open>resolution_state\<close>: the fresh registry,
  the state after each mark, after each single append of the loop, and after each call) the
  dependency list of a fragment \<open>F\<close> holds no duplicates, and it does not hold \<open>F\<close> itself
  unless \<open>F\<close> requires itself through the require graph.
\<close>

theorem C6_dependencies_distinct_and_irreflexive:
  "resolution_state dict \<Longrightarrow> dict F = Some s \<Longrightarrow>
   distinct (dependencies s) \<and>
   ((F, F) \<notin> (requires dict)\<^sup>+ \<longrightarrow> F \<notin> set (dependencies s))"
  using resolution_state_deps_inv [of dict] unfolding deps_inv_def by blast

lemma trancl_rank:
  fixes f :: "'a \<Rightarrow> nat"
  assumes "\<And>x y. (x, y) \<in> r \<Longrightarrow> f y < f x" and "(x, y) \<in> r\<^sup>+"
  shows "f y < f x"
  using assms(2) by (induction rule: trancl_induct) (auto dest: assms(1) intro: less_trans)

lemma requires_chain_resolved: "requires chain_resolved = {(''a'', ''b''), (''b'', ''c'')}"
  by (auto simp: requires_def chain_resolved_def resolved_fragment_def fragment_def
        require_names.simps eval_strings Let_def split: if_splits)

definition chain_rank :: "string \<Rightarrow> nat" where
  "chain_rank X = (if X = ''a'' then 2 else if X = ''b'' then 1 else 0)"

lemma chain_resolved_irrefl: "(X, X) \<notin> (requires chain_resolved)\<^sup>+"
proof
  assume "(X, X) \<in> (requires chain_resolved)\<^sup>+"
  then have "chain_rank X < chain_rank X"
    by (rule trancl_rank [rotated]) (auto simp: requires_chain_resolved chain_rank_def)
  then show False by simp
qed

lemma fresh_chain_registry: "fresh_registry chain_registry"
  by (auto simp: fresh_registry_def chain_registry_def fragment_def split: if_splits)

lemma chain_fresh: "resolution_state chain_registry"
  using fresh_chain_registry by (rule resolution_state.fresh)

lemma chain_resolved_state: "resolution_state chain_resolved"
  using chain_fresh chain_registry_run by (rule resolution_state.call)

theorem C6_dependencies_distinct_and_irreflexive_witness:
  "resolution_state chain_resolved \<and>
   chain_resolved ''a'' = Some (resolved_fragment ''a'' ''#pragma BLENDER_REQUIRE(b)'' [''c'', ''b'']) \<and>
   (''a'', ''a'') \<notin> (requires chain_resolved)\<^sup>+ \<and>
   distinct [''c'', ''b''] \<and> ''a'' \<notin> set [''c'', ''b'']"
proof -
  have h1: "resolution_state chain_resolved" by (rule chain_resolved_state)
  have h2: "chain_resolved ''a'' =
              Some (resolved_fragment ''a'' ''#pragma BLENDER_REQUIRE(b)'' [''c'', ''b''])"
    by (simp add: chain_resolved_def)
  have h3: "(''a'', ''a'') \<notin> (requires chain_resolved)\<^sup>+" by (rule chain_resolved_irrefl)
  from C6_dependencies_distinct_and_irreflexive [OF h1 h2] h1 h2 h3 show ?thesis
    by (simp add: resolved_fragment_def)
qed

section \<open>Dependency lists are dependency-first\<close>

text \<open>
  \<open>before E D xs\<close>: \<open>E\<close> stands before an occurrence of \<open>D\<close> in \<open>xs\<close>. A list is closed when
  every entry comes after all entries of its own dependency list. Over a cycle-free require
  graph no list holds a fragment whose call is still running (the set \<open>S\<close>), so that the
  list of an entry is final when the entry is appended.
\<close>

definition deps_of :: "GPUSourceDictionnary \<Rightarrow> string \<Rightarrow> string list" where
  "deps_of dict X = (case dict X of Some s \<Rightarrow> dependencies s | None \<Rightarrow> [])"

definition before :: "'a \<Rightarrow> 'a \<Rightarrow> 'a list \<Rightarrow> bool" where
  "before E D xs \<longleftrightarrow> (\<exists>as bs. xs = as @ D # bs \<and> E \<in> set as)"

lemma before_append: "before E D xs \<Longrightarrow> before E D (xs @ ys)"
  unfolding before_def by (metis append.assoc append_Cons)


lemma before_append_non_duplicates:
  "before E D xs \<Longrightarrow> before E D (append_non_duplicates xs x)"
  by (simp add: append_non_duplicates_def before_append)





lemma before_in_set: "before E D xs \<Longrightarrow> E \<in> set xs \<and> D \<in> set xs"
  unfolding before_def by auto










section \<open>The build sequence\<close>

text \<open>
  \<open>ends_malformed src pos\<close>: the scan of \<open>src\<close> after \<open>pos\<close> ends at a directive without a
  closing parenthesis. With it the loop can be run on the list of the required names.
\<close>

function ends_malformed :: "string \<Rightarrow> int \<Rightarrow> bool" where
  "ends_malformed src pos =
     (let p = next_pos src pos in
      if p = - 1 then False
      else if directive_end src p = - 1 then True
      else ends_malformed src p)"
  by pat_completeness auto
termination
  apply (relation "measure (\<lambda>(src, pos). nat (int (length src) + 1 - pos))")
   apply simp
  subgoal for src pos
    using next_pos_bounds [of src pos] by auto
  done

declare ends_malformed.simps [simp del]



text \<open>
  \<open>registry_state\<close> holds of the states between calls: a fresh registry and what calls
  make of it.
\<close>






lemma requires_chain_registry: "requires chain_registry = {(''a'', ''b''), (''b'', ''c'')}"
  by (auto simp: requires_def chain_registry_def fragment_def
        require_names.simps eval_strings Let_def split: if_splits)


section \<open>Failure and success of resolution\<close>

text \<open>
  A marked fragment is complete when its scan went through all of its directives: each is
  closed and names a marked fragment that stands in the list. \<open>settled_except S\<close> asks
  this of every marked fragment outside \<open>S\<close>, the set of the fragments whose call is still
  running.
\<close>

definition complete :: "GPUSourceDictionnary \<Rightarrow> GPUSource \<Rightarrow> bool" where
  "complete dict s \<longleftrightarrow>
     \<not> ends_malformed (source s) (- 1) \<and>
     (\<forall>nm \<in> set (require_names (source s) (- 1)).
        resolved dict nm \<and> nm \<in> set (dependencies s))"

definition grows :: "GPUSourceDictionnary \<Rightarrow> GPUSourceDictionnary \<Rightarrow> bool" where
  "grows d d' \<longleftrightarrow>
     (\<forall>X s s'. d X = Some s \<longrightarrow> d' X = Some s' \<longrightarrow>
        set (dependencies s) \<subseteq> set (dependencies s'))"

definition settled_except :: "string set \<Rightarrow> GPUSourceDictionnary \<Rightarrow> bool" where
  "settled_except S dict \<longleftrightarrow>
     (\<forall>X s. X \<notin> S \<longrightarrow> dict X = Some s \<longrightarrow> dependencies_init s \<longrightarrow> complete dict s)"

definition scanned_ok :: "GPUSourceDictionnary \<Rightarrow> string \<Rightarrow> string \<Rightarrow> int \<Rightarrow> bool" where
  "scanned_ok dict this src pos \<longleftrightarrow>
     (\<forall>nm \<in> set (require_names src (- 1)).
        nm \<in> set (require_names src pos) \<or>
        (resolved dict nm \<and> nm \<in> set (deps_of dict this))) \<and>
     (ends_malformed src (- 1) \<longrightarrow> ends_malformed src pos)"

lemma ends_malformed_step:
  "next_pos src pos \<noteq> - 1 \<Longrightarrow> directive_end src (next_pos src pos) \<noteq> - 1 \<Longrightarrow>
   ends_malformed src pos = ends_malformed src (next_pos src pos)"
  by (subst ends_malformed.simps) (simp add: Let_def)

lemma ends_malformed_finished: "next_pos src pos = - 1 \<Longrightarrow> \<not> ends_malformed src pos"
  by (subst ends_malformed.simps) (simp add: Let_def)

lemma require_names_finished: "next_pos src pos = - 1 \<Longrightarrow> require_names src pos = []"
  by (subst require_names.simps) (simp add: Let_def)

lemma grows_mark: "d X = Some s \<Longrightarrow> grows d (d(X \<mapsto> s\<lparr>dependencies_init := True\<rparr>))"
  by (auto simp: grows_def)

lemma grows_append: "append_dependencies d this nm = Some d' \<Longrightarrow> grows d d'"
  by (auto simp: grows_def append_dependencies_def set_append_non_duplicates
        set_foldl_append_non_duplicates split: option.splits if_splits)

lemma complete_step:
  assumes "evolves d d'" "grows d d'" "d X = Some s" "d' X = Some s'" "complete d s"
  shows "complete d' s'"
proof -
  have "source s' = source s"
    using assms(1,3,4) unfolding evolves_def same_fragment_def by fastforce
  moreover have "set (dependencies s) \<subseteq> set (dependencies s')"
    using assms(2,3,4) unfolding grows_def by blast
  ultimately show ?thesis
    using assms(5) evolves_resolved [OF assms(1)] unfolding complete_def by auto
qed

lemma evolves_source:
  "evolves d d' \<Longrightarrow> d X = Some s \<Longrightarrow> \<exists>s'. d' X = Some s' \<and> source s' = source s"
  unfolding evolves_def same_fragment_def by blast

text \<open>Changes that mark no new fragment keep a registry settled.\<close>

lemma settled_except_evolves:
  assumes "settled_except S d" "evolves d d'" "grows d d'"
    and same: "\<And>X. resolved d' X \<Longrightarrow> resolved d X"
  shows "settled_except S d'"
  unfolding settled_except_def
proof (intro allI impI)
  fix X s' assume X: "X \<notin> S" and s': "d' X = Some s'" and m: "dependencies_init s'"
  then have "resolved d X" using same by (auto simp: resolved_def)
  then obtain s where s: "d X = Some s" "dependencies_init s" by (auto simp: resolved_def)
  with assms(1) X have "complete d s" by (auto simp: settled_except_def)
  with assms(2,3) s(1) s' show "complete d' s'" by (rule complete_step)
qed

lemma append_dependencies_resolved:
  "append_dependencies d this nm = Some d' \<Longrightarrow> resolved d' X = resolved d X"
  by (auto simp: append_dependencies_def resolved_def split: option.splits if_splits)

lemma settled_except_mono: "settled_except T d \<Longrightarrow> T \<subseteq> S \<Longrightarrow> settled_except S d"
  unfolding settled_except_def by blast

lemma scanned_ok_step:
  assumes "scanned_ok dict this src pos" "next_pos src pos \<noteq> - 1"
    "directive_end src (next_pos src pos) \<noteq> - 1" "evolves dict d2"
    "set (deps_of dict this) \<subseteq> set (deps_of d2 this)"
    "resolved d2 (directive_name src (next_pos src pos))"
    "directive_name src (next_pos src pos) \<in> set (deps_of d2 this)"
  shows "scanned_ok d2 this src (next_pos src pos)"
  using assms evolves_resolved [OF assms(4)]
  unfolding scanned_ok_def
  by (auto simp: require_names_step [OF assms(2,3)] ends_malformed_step [OF assms(2,3)])

lemma loop_settled:
  assumes IH: "\<And>d ou nm d' ou'. init_dependencies n d ou nm = Some (0, d', ou') \<Longrightarrow>
                 settled_except S d \<Longrightarrow> settled_except S d'"
    and run: "init_dependencies_loop (init_dependencies n) dict out this path src pos = Some res"
  shows "fst res = 0 \<Longrightarrow> settled_except S dict \<Longrightarrow> scanned_ok dict this src pos \<Longrightarrow>
         (\<exists>s. dict this = Some s \<and> source s = src \<and> dependencies_init s) \<Longrightarrow>
         settled_except (S - {this}) (fst (snd res))"
  using run
proof (induction rule: init_dependencies_loop_induct)
  case (finished dict out pos)
  from finished(5) obtain s where s: "dict this = Some s" "source s = src" by blast
  have "complete dict s"
    using finished(4) s require_names_finished [OF finished(1)]
      ends_malformed_finished [OF finished(1)]
    by (auto simp: complete_def scanned_ok_def deps_of_def)
  with finished(3) s show ?case
    by (auto simp: settled_except_def)
next
  case (step dict out pos d1 o1 d2 res)
  let ?nm = "directive_name src (next_pos src pos)"
  from IH [OF step(4) step(9)] have s1: "settled_except S d1" .
  from init_dependencies_frame [OF step(4)] have ev1: "evolves dict d1"
    by (simp add: frame_ok_def)
  from init_dependencies_resolved [OF step(4)] have rs: "resolved d1 ?nm" .
  note ev12 = evolves_append [OF step(5)]
  have s2: "settled_except S d2"
    using s1 ev12 grows_append [OF step(5)]
    by (rule settled_except_evolves) (simp add: append_dependencies_resolved [OF step(5)])
  have ev2: "evolves dict d2" using ev1 ev12 by (rule evolves_trans)
  have rs2: "resolved d2 ?nm" using ev12 rs by (rule evolves_resolved)
  from step(11) obtain s where s: "dict this = Some s" "source s = src" "dependencies_init s"
    by blast
  from init_dependencies_frame [OF step(4)] s have k: "d1 this = Some s"
    by (simp add: frame_ok_def keeps_def)
  have g: "set (deps_of dict this) \<subseteq> set (deps_of d2 this)"
    and i: "?nm \<in> set (deps_of d2 this)"
    using step(5) k s(1)
    by (auto simp: deps_of_def append_dependencies_def set_append_non_duplicates
          set_foldl_append_non_duplicates split: option.splits)
  have sc: "scanned_ok d2 this src (next_pos src pos)"
    using step(10) step(1) step(2) ev2 g rs2 i by (rule scanned_ok_step)
  from ev2 s have th: "\<exists>s. d2 this = Some s \<and> source s = src \<and> dependencies_init s"
    unfolding evolves_def same_fragment_def by fastforce
  from step(7) [OF step(8) s2 sc th] show ?case .
qed simp_all

lemma init_dependencies_settled:
  "init_dependencies n dict out this = Some (0, dict', out') \<Longrightarrow> settled_except S dict \<Longrightarrow>
   settled_except S dict'"
proof (induction n arbitrary: dict out this dict' out' S)
  case 0
  then show ?case by (auto split: option.splits if_splits)
next
  case (Suc n)
  from Suc.prems obtain s where s: "dict this = Some s" by (auto split: option.splits)
  show ?case
  proof (cases "dependencies_init s")
    case True
    with Suc.prems s show ?thesis by auto
  next
    case False
    let ?d1 = "dict(this \<mapsto> s\<lparr>dependencies_init := True\<rparr>)"
    let ?S = "insert this S"
    from Suc.prems s False have
      run: "init_dependencies_loop (init_dependencies n) ?d1 out this (fullpath s) (source s) (- 1)
              = Some (0, dict', out')" by simp
    have ev: "evolves dict ?d1" using s by (rule evolves_mark)
    have s1: "settled_except ?S ?d1"
      unfolding settled_except_def
    proof (intro allI impI)
      fix X t assume X: "X \<notin> ?S" and t: "?d1 X = Some t" and m: "dependencies_init t"
      then have "dict X = Some t" by (simp split: if_splits)
      with Suc.prems(2) X m have "complete dict t" by (auto simp: settled_except_def)
      with ev grows_mark [of dict this s, OF s] \<open>dict X = Some t\<close> t
      show "complete ?d1 t" by (rule complete_step)
    qed
    have "settled_except (?S - {this}) (fst (snd (0::int, dict', out')))"
    proof (rule loop_settled [where S = ?S, OF _ run])
      show "settled_except ?S d'" if "init_dependencies n d ou nm = Some (0, d', ou')"
        "settled_except ?S d" for d ou nm d' ou'
        using that by (rule Suc.IH)
      show "fst (0::int, dict', out') = 0" by simp
      show "settled_except ?S ?d1" by (rule s1)
      show "scanned_ok ?d1 this (source s) (- 1)" by (simp add: scanned_ok_def)
      show "\<exists>t. ?d1 this = Some t \<and> source t = source s \<and> dependencies_init t" by simp
    qed
    then have "settled_except (?S - {this}) dict'" by simp
    then show ?thesis by (rule settled_except_mono) auto
  qed
qed

definition no_malformed_from :: "GPUSourceDictionnary \<Rightarrow> string \<Rightarrow> bool" where
  "no_malformed_from dict this \<longleftrightarrow>
     (\<forall>X s. (this, X) \<in> (requires dict)\<^sup>* \<longrightarrow> dict X = Some s \<longrightarrow>
            \<not> ends_malformed (source s) (- 1))"

definition all_registered_from :: "GPUSourceDictionnary \<Rightarrow> string \<Rightarrow> bool" where
  "all_registered_from dict this \<longleftrightarrow>
     (\<forall>X. (this, X) \<in> (requires dict)\<^sup>* \<longrightarrow> dict X \<noteq> None)"

lemma no_malformed_from_evolves:
  assumes "evolves d d'" "no_malformed_from d X"
  shows "no_malformed_from d' X"
proof -
  have rq: "requires d' = requires d" using assms(1) by (rule evolves_requires)
  show ?thesis
    unfolding no_malformed_from_def rq
  proof (intro allI impI)
    fix Y s' assume Y: "(X, Y) \<in> (requires d)\<^sup>*" and s': "d' Y = Some s'"
    from assms(1) s' obtain s where s: "d Y = Some s" "source s' = source s"
      unfolding evolves_def same_fragment_def
      by (metis option.exhaust option.inject option.distinct(1))
    with assms(2) Y show "\<not> ends_malformed (source s') (- 1)"
      by (auto simp: no_malformed_from_def)
  qed
qed

lemma all_registered_from_evolves:
  "evolves d d' \<Longrightarrow> all_registered_from d X \<Longrightarrow> all_registered_from d' X"
  using evolves_requires [of d d'] evolves_dom [of d d']
  unfolding all_registered_from_def by (metis domIff)

lemma no_malformed_from_step:
  "no_malformed_from d X \<Longrightarrow> (X, Y) \<in> requires d \<Longrightarrow> no_malformed_from d Y"
  unfolding no_malformed_from_def by (meson converse_rtrancl_into_rtrancl)

lemma all_registered_from_step:
  "all_registered_from d X \<Longrightarrow> (X, Y) \<in> requires d \<Longrightarrow> all_registered_from d Y"
  unfolding all_registered_from_def by (meson converse_rtrancl_into_rtrancl)

definition log_ok :: "string set \<Rightarrow> diag list \<Rightarrow> resolve_result \<Rightarrow> bool" where
  "log_ok M out res \<longleftrightarrow>
     (case res of (r, d, out') \<Rightarrow>
        (r = 0 \<and> out' = out) \<or>
        (r = 1 \<and> (\<exists>dg. out' = out @ [dg] \<and> diag_message dg \<in> M)))"

lemma print_error_message:
  "\<exists>dg. print_error path src ofs msg out = out @ [dg] \<and> diag_message dg = msg"
  by (simp add: print_error_def Let_def)

lemma loop_log:
  assumes IH: "\<And>d ou nm res. init_dependencies n d ou nm = Some res \<Longrightarrow>
                 msg_malformed \<in> M \<or> no_malformed_from d nm \<Longrightarrow> log_ok M ou res"
    and dnf: "''Dependency not found'' \<in> M"
    and run: "init_dependencies_loop (init_dependencies n) dict out this path src pos = Some res"
  shows "msg_malformed \<in> M \<or> no_malformed_from dict this \<Longrightarrow> scanning dict this src pos \<Longrightarrow>
         ends_malformed src pos = ends_malformed src (- 1) \<Longrightarrow> log_ok M out res"
  using run
proof (induction rule: init_dependencies_loop_induct)
  case (finished dict out pos)
  show ?case by (simp add: log_ok_def)
next
  case (malformed dict out pos)
  have "ends_malformed src pos"
    using malformed(1,2) by (subst ends_malformed.simps) (simp add: Let_def)
  with malformed(5) have "ends_malformed src (- 1)" by simp
  moreover from malformed(4) obtain s where "dict this = Some s" "source s = src"
    by (auto simp: scanning_def)
  ultimately have "\<not> no_malformed_from dict this"
    by (auto simp: no_malformed_from_def)
  with malformed(3) have "msg_malformed \<in> M" by blast
  then show ?case
    using print_error_message [of path src "directive_start src (next_pos src pos)" msg_malformed out]
    by (auto simp: log_ok_def)
next
  case (missing dict out pos)
  show ?case
    using dnf print_error_message [of path src "directive_start src (next_pos src pos)"
        "''Dependency not found''" out]
    by (auto simp: log_ok_def)
next
  case (failed dict out pos r1 d1 o1)
  let ?nm = "directive_name src (next_pos src pos)"
  have rq: "(this, ?nm) \<in> requires dict"
    using failed(7) failed(1) failed(2) by (rule scanning_requires)
  have "msg_malformed \<in> M \<or> no_malformed_from dict ?nm"
    using failed(6) rq no_malformed_from_step by blast
  from IH [OF failed(4) this] failed(5) show ?case by (auto simp: log_ok_def)
next
  case (step dict out pos d1 o1 d2 res)
  let ?nm = "directive_name src (next_pos src pos)"
  have rq: "(this, ?nm) \<in> requires dict"
    using step(9) step(1) step(2) by (rule scanning_requires)
  have "msg_malformed \<in> M \<or> no_malformed_from dict ?nm"
    using step(8) rq no_malformed_from_step by blast
  from IH [OF step(4) this] have o1: "o1 = out" by (simp add: log_ok_def)
  from init_dependencies_frame [OF step(4)] have ev1: "evolves dict d1"
    by (simp add: frame_ok_def)
  have ev2: "evolves dict d2" using ev1 evolves_append [OF step(5)] by (rule evolves_trans)
  have a: "msg_malformed \<in> M \<or> no_malformed_from d2 this"
    using step(8) ev2 no_malformed_from_evolves by blast
  have b: "scanning d2 this src (next_pos src pos)"
    using step(9) step(1) step(2) ev2 by (rule scanning_step)
  have c: "ends_malformed src (next_pos src pos) = ends_malformed src (- 1)"
    using step(10) ends_malformed_step [OF step(1) step(2)] by simp
  from step(7) [OF a b c] show ?case by (simp add: o1)
qed

lemma init_dependencies_log:
  "init_dependencies n dict out this = Some res \<Longrightarrow> ''Dependency not found'' \<in> M \<Longrightarrow>
   msg_malformed \<in> M \<or> no_malformed_from dict this \<Longrightarrow> log_ok M out res"
proof (induction n arbitrary: dict out this res)
  case 0
  then show ?case by (auto simp: log_ok_def split: option.splits if_splits)
next
  case (Suc n)
  from Suc.prems obtain s where s: "dict this = Some s" by (auto split: option.splits)
  show ?case
  proof (cases "dependencies_init s")
    case True
    with Suc.prems s show ?thesis by (auto simp: log_ok_def)
  next
    case False
    let ?d1 = "dict(this \<mapsto> s\<lparr>dependencies_init := True\<rparr>)"
    from Suc.prems s False have
      run: "init_dependencies_loop (init_dependencies n) ?d1 out this (fullpath s) (source s) (- 1)
              = Some res" by simp
    have ev: "evolves dict ?d1" using s by (rule evolves_mark)
    show ?thesis
    proof (rule loop_log [OF _ Suc.prems(2) run])
      show "log_ok M ou res" if "init_dependencies n d ou nm = Some res"
        "msg_malformed \<in> M \<or> no_malformed_from d nm" for d ou nm res
        using that(1) Suc.prems(2) that(2) by (rule Suc.IH)
      show "msg_malformed \<in> M \<or> no_malformed_from ?d1 this"
        using Suc.prems(3) ev no_malformed_from_evolves by blast
      show "scanning ?d1 this (source s) (- 1)" by (rule scanning_start)
      show "ends_malformed (source s) (- 1) = ends_malformed (source s) (- 1)" by simp
    qed
  qed
qed

lemma loop_succeeds:
  assumes IH: "\<And>d ou nm res. init_dependencies n d ou nm = Some res \<Longrightarrow>
                 no_malformed_from d nm \<Longrightarrow> all_registered_from d nm \<Longrightarrow> fst res = 0"
    and run: "init_dependencies_loop (init_dependencies n) dict out this path src pos = Some res"
  shows "no_malformed_from dict this \<Longrightarrow> all_registered_from dict this \<Longrightarrow>
         scanning dict this src pos \<Longrightarrow>
         ends_malformed src pos = ends_malformed src (- 1) \<Longrightarrow> fst res = 0"
  using run
proof (induction rule: init_dependencies_loop_induct)
  case (finished dict out pos)
  show ?case by simp
next
  case (malformed dict out pos)
  have "ends_malformed src pos"
    using malformed(1,2) by (subst ends_malformed.simps) (simp add: Let_def)
  with malformed(6) have "ends_malformed src (- 1)" by simp
  moreover from malformed(5) obtain s where "dict this = Some s" "source s = src"
    by (auto simp: scanning_def)
  ultimately have "\<not> no_malformed_from dict this"
    by (auto simp: no_malformed_from_def)
  with malformed(3) show ?case by simp
next
  case (missing dict out pos)
  have "(this, directive_name src (next_pos src pos)) \<in> requires dict"
    using missing(6) missing(1) missing(2) by (rule scanning_requires)
  with missing(5) have "dict (directive_name src (next_pos src pos)) \<noteq> None"
    unfolding all_registered_from_def by blast
  with missing(3) show ?case by simp
next
  case (failed dict out pos r1 d1 o1)
  let ?nm = "directive_name src (next_pos src pos)"
  have rq: "(this, ?nm) \<in> requires dict"
    using failed(8) failed(1) failed(2) by (rule scanning_requires)
  from IH [OF failed(4) no_malformed_from_step [OF failed(6) rq]
      all_registered_from_step [OF failed(7) rq]] failed(5)
  show ?case by simp
next
  case (step dict out pos d1 o1 d2 res)
  from init_dependencies_frame [OF step(4)] have ev1: "evolves dict d1"
    by (simp add: frame_ok_def)
  have ev2: "evolves dict d2" using ev1 evolves_append [OF step(5)] by (rule evolves_trans)
  have a: "no_malformed_from d2 this" using ev2 step(8) by (rule no_malformed_from_evolves)
  have b: "all_registered_from d2 this" using ev2 step(9) by (rule all_registered_from_evolves)
  have c: "scanning d2 this src (next_pos src pos)"
    using step(10) step(1) step(2) ev2 by (rule scanning_step)
  have d: "ends_malformed src (next_pos src pos) = ends_malformed src (- 1)"
    using step(11) ends_malformed_step [OF step(1) step(2)] by simp
  from step(7) [OF a b c d] show ?case .
qed

lemma init_dependencies_succeeds:
  "init_dependencies n dict out this = Some res \<Longrightarrow> no_malformed_from dict this \<Longrightarrow>
   all_registered_from dict this \<Longrightarrow> fst res = 0"
proof (induction n arbitrary: dict out this res)
  case 0
  then show ?case by (auto split: option.splits if_splits)
next
  case (Suc n)
  from Suc.prems obtain s where s: "dict this = Some s" by (auto split: option.splits)
  show ?case
  proof (cases "dependencies_init s")
    case True
    with Suc.prems s show ?thesis by auto
  next
    case False
    let ?d1 = "dict(this \<mapsto> s\<lparr>dependencies_init := True\<rparr>)"
    from Suc.prems s False have
      run: "init_dependencies_loop (init_dependencies n) ?d1 out this (fullpath s) (source s) (- 1)
              = Some res" by simp
    have ev: "evolves dict ?d1" using s by (rule evolves_mark)
    show ?thesis
    proof (rule loop_succeeds [OF _ run])
      show "fst res = 0" if "init_dependencies n d ou nm = Some res"
        "no_malformed_from d nm" "all_registered_from d nm" for d ou nm res
        using that by (rule Suc.IH)
      show "no_malformed_from ?d1 this" using ev Suc.prems(2) by (rule no_malformed_from_evolves)
      show "all_registered_from ?d1 this"
        using ev Suc.prems(3) by (rule all_registered_from_evolves)
      show "scanning ?d1 this (source s) (- 1)" by (rule scanning_start)
      show "ends_malformed (source s) (- 1) = ends_malformed (source s) (- 1)" by simp
    qed
  qed
qed

text \<open>In a settled registry the marked fragments are closed under the require graph.\<close>

lemma settled_closed:
  assumes st: "settled_except {} d" and r: "(X, Y) \<in> (requires d)\<^sup>*" and m: "resolved d X"
  shows "resolved d Y"
  using r m
proof (induction rule: rtrancl_induct)
  case base
  then show ?case .
next
  case (step Y Z)
  then have "resolved d Y" by simp
  then obtain s where s: "d Y = Some s" "dependencies_init s" by (auto simp: resolved_def)
  with st have "complete d s" by (auto simp: settled_except_def)
  moreover from step(2) s have "Z \<in> set (require_names (source s) (- 1))"
    by (auto simp: requires_def)
  ultimately show ?case by (auto simp: complete_def)
qed

lemma fails_when_reaching_missing:
  assumes st: "settled_except {} dict" and fin: "finite (dom dict)"
    and depth: "card (dom dict) \<le> depth" and G: "G \<in> dom dict"
    and reach: "(G, F) \<in> (requires dict)\<^sup>*" and req: "(F, nm) \<in> requires dict"
    and missing: "dict nm = None"
  shows "\<exists>dict' dg. init_dependencies depth dict out G = Some (1, dict', out @ [dg]) \<and>
           diag_message dg \<in> {msg_malformed, ''Dependency not found''} \<and>
           (no_malformed_from dict G \<longrightarrow> diag_message dg = ''Dependency not found'')"
proof -
  have "card (unresolved dict) \<le> card (dom dict)"
    using fin unresolved_subset_dom by (rule card_mono)
  with depth have "card (unresolved dict) \<le> depth" by simp
  from init_dependencies_returns [OF fin G this, of out] obtain r dict' out' where
    run: "init_dependencies depth dict out G = Some (r, dict', out')"
    by (metis prod_cases3)
  from init_dependencies_frame [OF run] have ev: "evolves dict dict'" and r01: "r = 0 \<or> r = 1"
    by (simp_all add: frame_ok_def)
  have r1: "r = 1"
  proof (rule ccontr)
    assume "r \<noteq> 1"
    with r01 have r0: "r = 0" by simp
    have st': "settled_except {} dict'"
      using run [unfolded r0] st by (rule init_dependencies_settled)
    have rq: "requires dict' = requires dict" using ev by (rule evolves_requires)
    have "resolved dict' G" using run by (rule init_dependencies_resolved)
    with st' reach req have "resolved dict' nm"
      using settled_closed [of dict' G nm] unfolding rq
      by (meson rtrancl.rtrancl_into_rtrancl)
    then have "nm \<in> dom dict'" by (auto simp: resolved_def)
    with evolves_dom [OF ev] missing show False by auto
  qed
  have a: "log_ok {msg_malformed, ''Dependency not found''} out (r, dict', out')"
    using run by (rule init_dependencies_log) simp_all
  have b: "no_malformed_from dict G \<Longrightarrow> log_ok {''Dependency not found''} out (r, dict', out')"
    using run by (rule init_dependencies_log) simp_all
  from a b r1 run show ?thesis by (auto simp: log_ok_def)
qed

lemma succeeds_when_well_formed:
  assumes fin: "finite (dom dict)" and depth: "card (dom dict) \<le> depth"
    and nm: "no_malformed_from dict G" and ar: "all_registered_from dict G"
  shows "\<exists>dict'. init_dependencies depth dict out G = Some (0, dict', out)"
proof -
  have G: "G \<in> dom dict" using ar by (auto simp: all_registered_from_def)
  have "card (unresolved dict) \<le> card (dom dict)"
    using fin unresolved_subset_dom by (rule card_mono)
  with depth have "card (unresolved dict) \<le> depth" by simp
  from init_dependencies_returns [OF fin G this, of out] obtain r dict' out' where
    run: "init_dependencies depth dict out G = Some (r, dict', out')"
    by (metis prod_cases3)
  from init_dependencies_succeeds [OF run nm ar] have r: "r = 0" by simp
  have "log_ok {''Dependency not found''} out (r, dict', out')"
    using run _ _
  proof (rule init_dependencies_log)
    show "msg_malformed \<in> {''Dependency not found''} \<or> no_malformed_from dict G" using nm by simp
  qed simp
  with r run show ?thesis by (auto simp: log_ok_def)
qed

text \<open>
  A registry is settled when every marked fragment completed its scan. A fresh registry is
  settled, and a call that returns \<open>0\<close> keeps a registry settled
  (\<open>init_dependencies_settled\<close>); a call that fails leaves its fragment marked although
  its scan was cut short.
\<close>

definition settled :: "GPUSourceDictionnary \<Rightarrow> bool" where
  "settled dict \<longleftrightarrow> settled_except {} dict"

lemma fresh_registry_settled: "fresh_registry dict \<Longrightarrow> settled dict"
  by (auto simp: settled_def settled_except_def fresh_registry_def)

text \<open>\<open>a\<close> requires \<open>b\<close>, and \<open>b\<close> requires a name that is not registered.\<close>

definition missing_registry :: GPUSourceDictionnary where
  "missing_registry =
     [''a'' \<mapsto> fragment ''a'' ''#pragma BLENDER_REQUIRE(b)'',
      ''b'' \<mapsto> fragment ''b'' ''#pragma BLENDER_REQUIRE(missing)'']"

definition missing_after_b :: GPUSourceDictionnary where
  "missing_after_b =
     [''a'' \<mapsto> fragment ''a'' ''#pragma BLENDER_REQUIRE(b)'',
      ''b'' \<mapsto> resolved_fragment ''b'' ''#pragma BLENDER_REQUIRE(missing)'' []]"

definition missing_after_a :: GPUSourceDictionnary where
  "missing_after_a =
     [''b'' \<mapsto> resolved_fragment ''b'' ''#pragma BLENDER_REQUIRE(missing)'' [],
      ''a'' \<mapsto> resolved_fragment ''a'' ''#pragma BLENDER_REQUIRE(b)'' [''b'']]"

definition missing_diag :: diag where
  "missing_diag = \<lparr>diag_path = ''shaders/b'', diag_line = 1, diag_column = 25,
                    diag_message = ''Dependency not found''\<rparr>"

text \<open>
  C4. The claim: a require-directive of \<open>F\<close> that names an unregistered fragment makes the
  resolution of \<open>F\<close> fail with a MissingDependency error, makes the resolution of every
  fragment that transitively requires \<open>F\<close> fail, and leaves the others successful. The
  middle part fails on the memoization guard: a failed call leaves its fragment marked, and
  a call on a marked fragment returns \<open>0\<close>. With \<open>b\<close> resolved first (it fails), the
  resolution of \<open>a\<close>, which requires \<open>b\<close>, succeeds.
\<close>

theorem C4_dependent_resolved_later_counterexample:
  "init_dependencies (Suc 0) missing_registry [] ''b'' = Some (1, missing_after_b, [missing_diag]) \<and>
   init_dependencies (Suc 0) missing_after_b [missing_diag] ''a''
     = Some (0, missing_after_a, [missing_diag]) \<and>
   require_names ''#pragma BLENDER_REQUIRE(b)'' (- 1) = [''b'']"
  by (simp add: missing_registry_def missing_after_b_def missing_after_a_def missing_diag_def
        eval_resolve eval_strings require_names.simps)

text \<open>
  C4, amended. Let \<open>F\<close> hold a require-directive that names an unregistered fragment. In a
  settled registry (a fresh one, or one in which no call has failed yet), resolving \<open>F\<close> or
  any fragment \<open>G\<close> that transitively requires \<open>F\<close> returns \<open>1\<close> and reports exactly one
  error, which is "Dependency not found" unless a directive without closing parenthesis
  is reachable from \<open>G\<close>. A fragment \<open>H\<close> whose transitive requires are all registered and
  hold only closed directives resolves with \<open>0\<close> and without a report.
\<close>

theorem C4_missing_dependency_fails:
  "(settled dict \<and> finite (dom dict) \<and> card (dom dict) \<le> depth \<and> G \<in> dom dict \<and>
    (G, F) \<in> (requires dict)\<^sup>* \<and> (F, nm) \<in> requires dict \<and> dict nm = None \<longrightarrow>
      (\<exists>dict' dg. init_dependencies depth dict out G = Some (1, dict', out @ [dg]) \<and>
         diag_message dg \<in> {msg_malformed, ''Dependency not found''} \<and>
         (no_malformed_from dict G \<longrightarrow> diag_message dg = ''Dependency not found'')))
   \<and>
   (finite (dom reg) \<and> card (dom reg) \<le> depth \<and> no_malformed_from reg H \<and>
    all_registered_from reg H \<longrightarrow>
      (\<exists>reg'. init_dependencies depth reg out H = Some (0, reg', out)))"
  using fails_when_reaching_missing [of dict depth G F nm out]
    succeeds_when_well_formed [of reg depth H out]
  unfolding settled_def by blast

lemma requires_missing_registry:
  "requires missing_registry = {(''a'', ''b''), (''b'', ''missing'')}"
  by (auto simp: requires_def missing_registry_def fragment_def
        require_names.simps eval_strings Let_def split: if_splits)

lemma no_malformed_missing_registry: "no_malformed_from missing_registry X"
  by (auto simp: no_malformed_from_def missing_registry_def fragment_def
        ends_malformed.simps eval_strings Let_def split: if_splits)

lemma no_malformed_chain_registry: "no_malformed_from chain_registry X"
  by (auto simp: no_malformed_from_def chain_registry_def fragment_def
        ends_malformed.simps eval_strings Let_def split: if_splits)

lemma all_registered_chain_registry: "all_registered_from chain_registry ''a''"
  unfolding all_registered_from_def
proof (intro allI impI)
  fix X assume "(''a'', X) \<in> (requires chain_registry)\<^sup>*"
  then have "X \<in> {''a'', ''b'', ''c''}"
    by (induction rule: rtrancl_induct) (auto simp: requires_chain_registry)
  then show "chain_registry X \<noteq> None" by (auto simp: chain_registry_def)
qed

theorem C4_missing_dependency_fails_witness:
  "settled missing_registry \<and> finite (dom missing_registry) \<and> card (dom missing_registry) \<le> 3 \<and>
   ''a'' \<in> dom missing_registry \<and> (''a'', ''b'') \<in> (requires missing_registry)\<^sup>* \<and>
   (''b'', ''missing'') \<in> requires missing_registry \<and> missing_registry ''missing'' = None \<and>
   no_malformed_from missing_registry ''a'' \<and>
   finite (dom chain_registry) \<and> card (dom chain_registry) \<le> 3 \<and>
   no_malformed_from chain_registry ''a'' \<and> all_registered_from chain_registry ''a'' \<and>
   (\<exists>dict' dg. init_dependencies 3 missing_registry [] ''a'' = Some (1, dict', [dg]) \<and>
       diag_message dg = ''Dependency not found'') \<and>
   (\<exists>reg'. init_dependencies 3 chain_registry [] ''a'' = Some (0, reg', []))"
proof -
  have h1: "settled missing_registry"
    by (rule fresh_registry_settled)
       (auto simp: fresh_registry_def missing_registry_def fragment_def split: if_splits)
  have h2: "finite (dom missing_registry)" and h3: "card (dom missing_registry) \<le> 3"
    and h4: "''a'' \<in> dom missing_registry" and h7: "missing_registry ''missing'' = None"
    by (simp_all add: missing_registry_def)
  have h5: "(''a'', ''b'') \<in> (requires missing_registry)\<^sup>*"
    and h6: "(''b'', ''missing'') \<in> requires missing_registry"
    by (auto simp: requires_missing_registry)
  have h8: "no_malformed_from missing_registry ''a''" by (rule no_malformed_missing_registry)
  have k1: "finite (dom chain_registry)" and k2: "card (dom chain_registry) \<le> 3"
    by (simp_all add: chain_registry_def)
  have k3: "no_malformed_from chain_registry ''a''" by (rule no_malformed_chain_registry)
  have k4: "all_registered_from chain_registry ''a''" by (rule all_registered_chain_registry)
  note t = C4_missing_dependency_fails
    [of missing_registry 3 "''a''" "''b''" "''missing''" "[]" chain_registry "''a''"]
  from t h1 h2 h3 h4 h5 h6 h7 h8 have c1:
    "\<exists>dict' dg. init_dependencies 3 missing_registry [] ''a'' = Some (1, dict', [dg]) \<and>
       diag_message dg = ''Dependency not found''"
    by auto
  from t k1 k2 k3 k4 have c2:
    "\<exists>reg'. init_dependencies 3 chain_registry [] ''a'' = Some (0, reg', [])"
    by blast
  from h1 h2 h3 h4 h5 h6 h7 h8 k1 k2 k3 k4 c1 c2 show ?thesis by blast
qed


section \<open>The build sequence is dependency-first\<close>














section \<open>The builtin flags query\<close>

definition stage_text :: string where
  "stage_text = ''void main() { gl_FragColor = gl_FragCoord; }''"

lemmas eval_construct = GPUSource_new_def scan_builtins_def scan_builtin_def builtin_keywords_def
  endswith_def startswith_def is_from_material_library_def suffix_to_prefix

text \<open>
  C2. The claim: for a resolved fragment \<open>F\<close> the flags query returns the union of the
  flags of \<open>F\<close> itself and of every fragment of its dependency list. \<open>builtins_get\<close> starts
  from \<open>NONE\<close> and adds the flags of the dependencies only. For a stage text that reads
  \<open>gl_FragCoord\<close> and requires nothing, registered and resolved without error, the flag
  \<open>FRAG_COORD\<close> is set on the fragment and the query returns the empty set.
\<close>

theorem C2_own_flags_missing:
  "map_option (\<lambda>(errors, g_sources, g_functions, out).
       (errors, FRAG_COORD \<in> builtins_of g_sources ''test_frag.glsl'',
        gpu_shader_dependency_get_builtins g_sources ''test_frag.glsl''))
     (gpu_shader_dependency_init 36 1
        [(stage_text, ''test_frag.glsl'', ''shaders/test_frag.glsl'')] [''test_frag.glsl''])
   = Some (0, True, {})
   \<and> sublist ''gl_FragCoord'' stage_text"
  by (simp add: gpu_shader_dependency_init_def stage_text_def eval_construct eval_resolve
        eval_strings gpu_shader_dependency_get_builtins_def builtins_get_def builtins_of_def
        sublist_Cons_right)

section \<open>Redefinition of a library function\<close>

text \<open>
  Two material libraries that both declare \<open>node_foo\<close>: the first on its third line, the
  second on its first line.
\<close>

definition lib_one :: string where
  "lib_one = ''/* first library */'' @ [newline, newline] @
             ''void node_foo(float a, out float b)'' @ [newline] @ ''{ b = a; }'' @ [newline]"

definition lib_two :: string where
  "lib_two = ''void node_foo(vec3 v)'' @ [newline] @ ''{}'' @ [newline]"

lemmas eval_parse = functions_loop.simps args_loop.simps function_parse_def arg_parse_def
  keyword_parse_def find_keyword_def find_token_def rfind_keyword_def find_str.simps
  is_in_comment_def boundary_chars_def whitespace_chars_def tab_def
  find_first_of_def find_first_not_of_def find_last_not_of_def
  material_functions_parse_def new_GPUFunction_def array_set_def parse_qualifier_def
  parse_type_def source_of_def

text \<open>
  C7. The claim: a function declared in two library fragments is reported as a
  redefinition citing both declaration locations, and the registry keeps the first entry;
  two declarations in one fragment raise no error and leave one entry. The registry does
  keep the first entry, and two reports are made, but the second one,
  \<open>... previous definition was here\<close>, is printed by the fragment being parsed with its own
  path and text and the offset of the name in the other fragment: it cites line 3, column 2
  of the second library, a place after the end of its text, where the previous definition
  stands at line 3, column 6 of the first library.
\<close>

theorem C7_previous_definition_cited_in_wrong_file:
  "map_option (\<lambda>(g_sources, g_functions, out).
       (out, map_option fn_source (g_functions ''node_foo'')))
     (add_sources 4
        [(lib_one, ''gpu_shader_material_one.glsl'', ''shaders/gpu_shader_material_one.glsl''),
         (lib_two, ''gpu_shader_material_two.glsl'', ''shaders/gpu_shader_material_two.glsl'')]
        Map.empty Map.empty [])
   = Some ([\<lparr>diag_path = ''shaders/gpu_shader_material_two.glsl'', diag_line = 1, diag_column = 6,
             diag_message = ''Function redefinition or overload in two different files ...''\<rparr>,
            \<lparr>diag_path = ''shaders/gpu_shader_material_two.glsl'', diag_line = 3, diag_column = 2,
             diag_message = ''... previous definition was here''\<rparr>],
           Some ''gpu_shader_material_one.glsl'')
   \<and> print_error ''shaders/gpu_shader_material_one.glsl'' lib_one
         (StringRef_find lib_one ''node_foo'' 0) ''... previous definition was here'' []
       = [\<lparr>diag_path = ''shaders/gpu_shader_material_one.glsl'', diag_line = 3, diag_column = 6,
            diag_message = ''... previous definition was here''\<rparr>]"
  by (simp add: lib_one_def lib_two_def eval_construct eval_parse eval_strings Let_def)

section \<open>The parameter arrays\<close>

text \<open>
  A signature is in order when its counter lies between zero and the capacity and both
  arrays have the capacity as their length.
\<close>

definition fn_ok :: "nat \<Rightarrow> GPUFunction \<Rightarrow> bool" where
  "fn_ok capacity f \<longleftrightarrow>
     0 \<le> totparam f \<and> totparam f \<le> int capacity \<and>
     length (paramqual f) = capacity \<and> length (paramtype f) = capacity"

lemma fn_ok_new: "fn_ok capacity (new_GPUFunction capacity nm src)"
  by (simp add: fn_ok_def new_GPUFunction_def)

lemma args_loop_in_bounds:
  "fn_ok capacity func \<Longrightarrow>
   \<exists>func' out'. args_loop this nm args cursor func out = Some (func', out') \<and>
                 fn_ok capacity func' \<and> totparam func \<le> totparam func'"
proof (induction this nm args cursor func out rule: args_loop.induct)
  case (1 this nm args cursor func out)
  show ?case
  proof (cases "arg_parse args cursor")
    case None
    with "1.prems" show ?thesis by (subst args_loop.simps) simp
  next
    case (Some r)
    obtain c q t n where r: "r = (c, q, t, n)" by (cases r) auto
    show ?thesis
    proof (cases "totparam func \<ge> int (length (paramtype func))")
      case True
      with Some r "1.prems" show ?thesis by (subst args_loop.simps) simp
    next
      case False
      let ?pq = "(paramqual func)[nat (totparam func) := parse_qualifier q]"
      let ?pt = "(paramtype func)[nat (totparam func) := parse_type t]"
      from False "1.prems" have
        aq: "array_set (paramqual func) (totparam func) (parse_qualifier q) = Some ?pq"
        and at: "array_set (paramtype func) (totparam func) (parse_type t) = Some ?pt"
        by (simp_all add: array_set_def fn_ok_def)
      let ?func = "func\<lparr>paramqual := ?pq, paramtype := ?pt, totparam := totparam func + 1\<rparr>"
      have ok: "fn_ok capacity ?func" using False "1.prems" by (simp add: fn_ok_def)
      note ih = "1.IH" [OF Some r [symmetric] refl refl False aq at refl refl, OF ok]
      show ?thesis
        using ih Some r False aq at
        by (subst args_loop.simps) (auto simp: Let_def)
    qed
  qed
qed

definition registry_ok :: "nat \<Rightarrow> GPUFunctionDictionnary \<Rightarrow> bool" where
  "registry_ok capacity g_functions \<longleftrightarrow> (\<forall>nm f. g_functions nm = Some f \<longrightarrow> fn_ok capacity f)"

lemma registry_ok_upd:
  "registry_ok capacity g \<Longrightarrow> fn_ok capacity f \<Longrightarrow> registry_ok capacity (g(nm \<mapsto> f))"
  by (simp add: registry_ok_def)

lemma functions_loop_in_bounds:
  "registry_ok capacity g_functions \<Longrightarrow>
   \<exists>g' out'. functions_loop capacity g_sources this cursor g_functions out = Some (g', out') \<and>
              registry_ok capacity g'"
proof (induction capacity g_sources this cursor g_functions out rule: functions_loop.induct)
  case (1 capacity g_sources this cursor g_functions out)
  show ?case
  proof (cases "function_parse (source this) cursor")
    case None
    with "1.prems" show ?thesis by (subst functions_loop.simps) simp
  next
    case (Some r)
    obtain c rt nm args where r: "r = (c, rt, nm, args)" by (cases r) auto
    let ?func = "new_GPUFunction capacity nm (filename this)"
    show ?thesis
    proof (cases "g_functions nm")
      case other: (Some other)
      show ?thesis
      proof (cases "fn_source other \<noteq> filename this")
        case True
        note ih = "1.IH"(3) [OF Some r [symmetric] refl refl refl other True refl refl, OF "1.prems"]
        have "functions_loop capacity g_sources this cursor g_functions out =
              functions_loop capacity g_sources this c g_functions
                (print_error (fullpath this) (source this)
                   (StringRef_find (source_of g_sources (fn_source other)) nm 0)
                   ''... previous definition was here''
                   (print_error (fullpath this) (source this)
                      (StringRef_find (source this) nm 0)
                      ''Function redefinition or overload in two different files ...'' out))"
          using Some r other True by (subst functions_loop.simps) (simp add: Let_def)
        then show ?thesis using ih by simp
      next
        case False
        note ih = "1.IH"(4) [OF Some r [symmetric] refl refl refl other False, OF "1.prems"]
        have "functions_loop capacity g_sources this cursor g_functions out =
              functions_loop capacity g_sources this c g_functions out"
          using Some r other False by (subst functions_loop.simps) (simp add: Let_def)
        then show ?thesis using ih by simp
      qed
    next
      case None
      let ?g1 = "g_functions(nm \<mapsto> ?func)"
      have ok1: "registry_ok capacity ?g1"
        using "1.prems" fn_ok_new by (rule registry_ok_upd)
      show ?thesis
      proof (cases "rt \<noteq> ''void''")
        case True
        note ih = "1.IH"(1) [OF Some r [symmetric] refl refl refl None refl True, OF ok1]
        have "functions_loop capacity g_sources this cursor g_functions out =
              functions_loop capacity g_sources this c ?g1 out"
          using Some r None True by (subst functions_loop.simps) (simp add: Let_def)
        then show ?thesis using ih by (simp only:)
      next
        case False
        have "fn_ok capacity (?func\<lparr>totparam := 0\<rparr>)"
          using fn_ok_new [of capacity nm "filename this"] by (simp add: fn_ok_def)
        from args_loop_in_bounds [OF this, of this nm args "- 1" out]
        obtain func' out' where
          al: "args_loop this nm args (- 1) (?func\<lparr>totparam := 0\<rparr>) out = Some (func', out')"
          and ok': "fn_ok capacity func'" by blast
        have ok2: "registry_ok capacity (?g1(nm \<mapsto> func'))"
          using ok1 ok' by (rule registry_ok_upd)
        note ih = "1.IH"(2) [OF Some r [symmetric] refl refl refl None refl False al refl, OF ok2]
        have "functions_loop capacity g_sources this cursor g_functions out =
              functions_loop capacity g_sources this c (?g1(nm \<mapsto> func')) out'"
          using Some r None False al by (subst functions_loop.simps) (simp add: Let_def)
        then show ?thesis using ih by (simp only:)
      qed
    qed
  qed
qed

lemma args_loop_full:
  "fn_ok capacity func \<Longrightarrow> totparam func = int capacity \<Longrightarrow> arg_parse args cursor \<noteq> None \<Longrightarrow>
   args_loop this nm args cursor func out =
     Some (func, print_error (fullpath this) (source this) (StringRef_find (source this) nm 0)
                   ''Too much parameter in function'' out)"
  by (subst args_loop.simps) (auto simp: fn_ok_def split: option.splits)

text \<open>
  C10. The number of recorded parameters of a parsed declaration never exceeds the capacity
  of the parameter arrays, and every write to \<open>paramqual\<close> and \<open>paramtype\<close> is in bounds:
  parsing a library returns (no write left an array) and every signature of the registry
  has its counter between zero and the capacity; the loop over the parameters returns
  likewise, and when the capacity is reached and one more parameter is parsed it reports
  \<open>Too much parameter in function\<close> and stops with the signature unchanged.
\<close>

theorem C10_parameter_arrays_in_bounds:
  "(registry_ok capacity g_functions \<longrightarrow>
      (\<exists>g' out'. material_functions_parse capacity g_sources this g_functions out = Some (g', out') \<and>
                  registry_ok capacity g'))
   \<and>
   (fn_ok capacity func \<longrightarrow>
      (\<exists>func' out'. args_loop this nm args cursor func out = Some (func', out') \<and>
                     fn_ok capacity func'))
   \<and>
   (fn_ok capacity func \<and> totparam func = int capacity \<and> arg_parse args cursor \<noteq> None \<longrightarrow>
      args_loop this nm args cursor func out =
        Some (func, print_error (fullpath this) (source this) (StringRef_find (source this) nm 0)
                      ''Too much parameter in function'' out))"
  using functions_loop_in_bounds [of capacity g_functions g_sources this "- 1" out]
    args_loop_in_bounds [of capacity func this nm args cursor out]
    args_loop_full [of capacity func args cursor this nm out]
  unfolding material_functions_parse_def by blast

text \<open>A library whose function has three parameters, parsed with arrays of two entries.\<close>

definition many_fragment :: GPUSource where
  "many_fragment =
     fragment ''gpu_shader_material_many.glsl'' ''void node_many(float a, float b, float c) {}''"

definition full_function :: GPUFunction where
  "full_function =
     \<lparr>fn_name = ''node_many'', fn_source = ''gpu_shader_material_many.glsl'', totparam = 2,
      paramqual = [FUNCTION_QUAL_IN, FUNCTION_QUAL_IN], paramtype = [GPU_FLOAT, GPU_FLOAT]\<rparr>"

definition too_much_diag :: diag where
  "too_much_diag =
     \<lparr>diag_path = ''shaders/gpu_shader_material_many.glsl'', diag_line = 1, diag_column = 6,
      diag_message = ''Too much parameter in function''\<rparr>"

theorem C10_parameter_arrays_in_bounds_witness:
  "registry_ok 2 Map.empty \<and> fn_ok 2 full_function \<and> totparam full_function = 2 \<and>
   arg_parse '' float c'' (- 1) \<noteq> None \<and>
   (\<exists>g' out'. material_functions_parse 2 Map.empty many_fragment Map.empty [] = Some (g', out') \<and>
               registry_ok 2 g') \<and>
   args_loop many_fragment ''node_many'' '' float c'' (- 1) full_function []
     = Some (full_function, [too_much_diag]) \<and>
   map_option (\<lambda>(g', out'). (g' ''node_many'', out'))
     (material_functions_parse 2 Map.empty many_fragment Map.empty [])
     = Some (Some full_function, [too_much_diag])"
proof -
  have h1: "registry_ok 2 Map.empty" by (simp add: registry_ok_def)
  have h2: "fn_ok 2 full_function" and h3: "totparam full_function = int 2"
    by (simp_all add: fn_ok_def full_function_def)
  have h4: "arg_parse '' float c'' (- 1) \<noteq> None"
    by (simp add: eval_parse eval_strings)
  have e: "print_error (fullpath many_fragment) (source many_fragment)
             (StringRef_find (source many_fragment) ''node_many'' 0)
             ''Too much parameter in function'' [] = [too_much_diag]"
    by (simp add: many_fragment_def fragment_def too_much_diag_def eval_strings)
  have v: "map_option (\<lambda>(g', out'). (g' ''node_many'', out'))
             (material_functions_parse 2 Map.empty many_fragment Map.empty [])
           = Some (Some full_function, [too_much_diag])"
    by (simp add: many_fragment_def fragment_def full_function_def too_much_diag_def
          eval_parse eval_strings Let_def numeral_2_eq_2)
  note t = C10_parameter_arrays_in_bounds
    [of 2 Map.empty Map.empty many_fragment "[]" full_function "''node_many''"
        "'' float c''" "- 1"]
  from t h1 h2 h3 h4 e v show ?thesis by auto
qed

section \<open>Enum rewriting without an enum\<close>

text \<open>
  The offsets at which \<open>kw\<close> occurs in \<open>input\<close> as a whole word outside comments: the text
  reads \<open>kw\<close> there, and the offset is zero, or the previous character is a boundary
  character and the offset is not inside a comment.
\<close>

definition keyword_positions :: "string \<Rightarrow> string \<Rightarrow> int list" where
  "keyword_positions input kw =
     filter (\<lambda>i. take (length kw) (drop (nat i) input) = kw \<and>
                 (i = 0 \<or> (input ! nat (i - 1) \<in> set boundary_chars \<and> \<not> is_in_comment input i)))
       (map int [0..<Suc (length input)])"

lemma int_image_upt: "r \<in> int ` {0..<Suc n} \<longleftrightarrow> 0 \<le> r \<and> r \<le> int n"
proof
  assume "0 \<le> r \<and> r \<le> int n"
  then show "r \<in> int ` {0..<Suc n}"
    by (intro image_eqI [where x = "nat r"]) auto
qed auto

lemma keyword_positions_iff:
  "r \<in> set (keyword_positions input kw) \<longleftrightarrow>
     0 \<le> r \<and> r \<le> int (length input) \<and> take (length kw) (drop (nat r) input) = kw \<and>
     (r = 0 \<or> (input ! nat (r - 1) \<in> set boundary_chars \<and> \<not> is_in_comment input r))"
  unfolding keyword_positions_def set_filter set_map set_upt int_image_upt by blast

lemma find_at_occurrence:
  "find_at kw xs i = r \<Longrightarrow> r \<noteq> - 1 \<Longrightarrow> 0 \<le> i \<Longrightarrow>
   i \<le> r \<and> r \<le> i + int (length xs) \<and> prefix kw (drop (nat (r - i)) xs)"
proof (induction xs arbitrary: i)
  case Nil
  then show ?case by (auto split: if_splits)
next
  case (Cons x xs)
  show ?case
  proof (cases "prefix kw (x # xs)")
    case True
    with Cons.prems show ?thesis by auto
  next
    case False
    with Cons.prems have "find_at kw xs (i + 1) = r" by simp
    from Cons.IH [OF this Cons.prems(2)] Cons.prems(3)
    have a: "i + 1 \<le> r" "r \<le> i + 1 + int (length xs)" "prefix kw (drop (nat (r - (i + 1))) xs)"
      by auto
    have "nat (r - i) = Suc (nat (r - (i + 1)))" using a(1) by simp
    with a show ?thesis by simp
  qed
qed

lemma StringRef_find_occurrence:
  assumes "StringRef_find input kw pos = r" "r \<noteq> - 1"
  shows "0 \<le> r \<and> r \<le> int (length input) \<and> take (length kw) (drop (nat r) input) = kw"
proof -
  from assms have pos: "0 \<le> pos" "pos \<le> int (length input)"
    and f: "find_at kw (drop (nat pos) input) pos = r"
    by (auto simp: StringRef_find_def split: if_splits)
  from find_at_occurrence [OF f assms(2) pos(1)]
  have a: "pos \<le> r" "r \<le> pos + int (length (drop (nat pos) input))"
    "prefix kw (drop (nat (r - pos)) (drop (nat pos) input))" by auto
  have "nat (r - pos) + nat pos = nat r" using a(1) pos(1) by simp
  with a(3) have "prefix kw (drop (nat r) input)" by simp
  then have "take (length kw) (drop (nat r) input) = kw"
    by (metis append_eq_conv_conj prefix_def)
  with a pos show ?thesis by auto
qed

lemma find_keyword_occurrence:
  "find_str True False input kw off = r \<Longrightarrow> r \<noteq> - 1 \<Longrightarrow> r \<in> set (keyword_positions input kw)"
proof (induction "True" "False" input kw off rule: find_str.induct)
  case (1 input kw off)
  let ?o = "StringRef_find input kw off"
  have occ: "?o \<noteq> - 1 \<Longrightarrow>
      0 \<le> ?o \<and> ?o \<le> int (length input) \<and> take (length kw) (drop (nat ?o) input) = kw"
    by (rule StringRef_find_occurrence [OF refl])
  have bnd: "?o = - 1 \<or> 0 \<le> ?o"
    using StringRef_find_bounds [of input kw off]
    by (auto simp: StringRef_find_def split: if_splits)
  show ?case
  proof (cases "0 < ?o")
    case False
    with "1.prems" have r: "r = ?o" by (subst (asm) find_str.simps) (simp add: Let_def)
    with "1.prems"(2) False bnd have "?o = 0" by auto
    with occ r show ?thesis by (simp add: keyword_positions_iff)
  next
    case pos: True
    show ?thesis
    proof (cases "input ! nat (?o - 1) \<notin> set boundary_chars \<or> is_in_comment input ?o")
      case True
      with "1.prems" pos have "find_str True False input kw (?o + 1) = r"
        by (subst (asm) find_str.simps) (auto simp: Let_def)
      with "1.hyps" pos True "1.prems"(2) show ?thesis by auto
    next
      case False
      with "1.prems" pos have r: "r = ?o"
        by (subst (asm) find_str.simps) (auto simp: Let_def)
      with occ pos False show ?thesis
        unfolding r keyword_positions_iff by simp
    qed
  qed
qed

lemma find_keyword_none:
  "keyword_positions input kw = [] \<Longrightarrow> find_keyword input kw off = - 1"
  using find_keyword_occurrence [of input kw off "find_keyword input kw off"]
  by (auto simp: find_keyword_def)

lemma enum_loop_none:
  "keyword_positions input ''enum '' = [] \<Longrightarrow>
   enum_loop path is_cpp input cursor last_pos outp out = (last_pos, outp, out)"
  by (subst enum_loop.simps) (simp add: find_keyword_none Let_def)

lemma enum_preprocess_none:
  "keyword_positions (source this) ''enum '' = [] \<Longrightarrow> enum_preprocess this out = (this, out)"
  by (simp add: enum_preprocess_def enum_loop_none)

lemma GPUSource_new_none:
  assumes "keyword_positions T ''enum '' = []"
    and "GPUSource_new capacity g_sources path file T g_functions out = Some (s, g', out')"
  shows "source s = T \<and> processed_source s = []"
  using assms
  by (auto simp: GPUSource_new_def enum_preprocess_none Let_def
        split: if_splits option.splits prod.splits)

lemma GPUSource_new_returns:
  assumes "registry_ok capacity g_functions"
  shows "\<exists>res. GPUSource_new capacity g_sources path file T g_functions out = Some res"
proof -
  have "\<exists>g' out'. material_functions_parse capacity g_sources this g_functions ou = Some (g', out')"
    for this and ou :: "diag list"
    using functions_loop_in_bounds [OF assms, of g_sources this "- 1" ou]
    unfolding material_functions_parse_def by blast
  then show ?thesis
    unfolding GPUSource_new_def Let_def
    by (auto split: prod.splits if_splits option.splits) (metis option.distinct(1))+
qed

text \<open>
  C8. For a fragment whose text holds no occurrence of \<open>enum \<close> as a whole word outside
  comments, enum rewriting is the identity: \<open>enum_preprocess\<close> returns the fragment as it
  was, no rewritten text is stored, and the source text of the constructed fragment is the
  raw text.
\<close>

theorem C8_enum_rewrite_identity:
  assumes "keyword_positions T ''enum '' = []"
  shows "enum_preprocess (this\<lparr>source := T\<rparr>) out = (this\<lparr>source := T\<rparr>, out) \<and>
         (registry_ok capacity g_functions \<longrightarrow>
            (\<exists>s g' out'. GPUSource_new capacity g_sources path file T g_functions out
                            = Some (s, g', out') \<and>
                          source s = T \<and> processed_source s = []))"
proof -
  have a: "enum_preprocess (this\<lparr>source := T\<rparr>) out = (this\<lparr>source := T\<rparr>, out)"
    using assms by (simp add: enum_preprocess_none)
  have b: "\<exists>s g' out'. GPUSource_new capacity g_sources path file T g_functions out
                            = Some (s, g', out') \<and> source s = T \<and> processed_source s = []"
    if ok: "registry_ok capacity g_functions"
  proof -
    from GPUSource_new_returns [OF ok, of g_sources path "file" T out] obtain s g' out' where
      r: "GPUSource_new capacity g_sources path file T g_functions out = Some (s, g', out')"
      by (metis prod_cases3)
    from GPUSource_new_none [OF assms r] r show ?thesis by blast
  qed
  from a b show ?thesis by blast
qed

text \<open>A shared header whose only \<open>enum \<close> stands in a comment.\<close>

definition header_text :: string where
  "header_text = ''/* no enum here */'' @ [newline] @ ''struct Light { vec3 color; };''"

theorem C8_enum_rewrite_identity_witness:
  "keyword_positions header_text ''enum '' = [] \<and> registry_ok 36 Map.empty \<and>
   sublist ''enum '' header_text \<and>
   (\<exists>s g' out'. GPUSource_new 36 Map.empty ''shaders/common.h'' ''common.h'' header_text Map.empty []
                   = Some (s, g', out') \<and>
                 source s = header_text \<and> processed_source s = [])"
proof -
  have h1: "keyword_positions header_text ''enum '' = []" by code_simp
  have h2: "registry_ok 36 Map.empty" by (simp add: registry_ok_def)
  have h3: "sublist ''enum '' header_text"
    by (simp add: header_text_def sublist_Cons_right)
  from C8_enum_rewrite_identity
    [OF h1, of "fragment ''common.h'' []" "[]" 36 Map.empty Map.empty
        "''shaders/common.h''" "''common.h''"]
    h1 h2 h3
  show ?thesis by blast
qed

end
